theory Spec2Isabelle
  imports Complex_Main "HOL-Library.Log_Nat"
begin

section \<open>Python values used by the converters\<close>

subsection \<open>Strings, errors, indexing\<close>

text \<open>
  A Python \<open>str\<close> is a sequence of Unicode code points; two of the glyph alphabets of
  \<open>video_to_ascii.py\<close> contain block characters beyond Latin-1, and \<open>len\<close> counts code
  points. A string is therefore a list of code points; \<open>u\<close> turns an ASCII literal into one.
\<close>

type_synonym ustring = "nat list"

definition u :: "string \<Rightarrow> ustring" where
  "u s = map of_char s"

datatype py_error = ValueError | IndexError | ZeroDivisionError

text \<open>\<open>xs[i]\<close>: a negative index counts from the end, an index out of range raises.\<close>

definition py_index :: "'a list \<Rightarrow> int \<Rightarrow> py_error + 'a" where
  "py_index xs i =
     (let n = int (length xs); j = (if i < 0 then i + n else i)
      in if j < 0 \<or> n \<le> j then Inl IndexError else Inr (xs ! nat j))"

text \<open>\<open>s.startswith(p)\<close>, \<open>s.split(c)\<close> for a one-character separator, \<open>s.rstrip(c)\<close>.\<close>

definition startswith :: "ustring \<Rightarrow> ustring \<Rightarrow> bool" where
  "startswith s p \<longleftrightarrow> take (length p) s = p"

fun split_on :: "nat \<Rightarrow> ustring \<Rightarrow> ustring list" where
  "split_on c [] = [[]]"
| "split_on c (x # xs) =
     (if x = c then [] # split_on c xs
      else (case split_on c xs of [] \<Rightarrow> [[x]] | f # fs \<Rightarrow> (x # f) # fs))"

definition rstrip_char :: "nat \<Rightarrow> ustring \<Rightarrow> ustring" where
  "rstrip_char c s = rev (dropWhile (\<lambda>x. x = c) (rev s))"

text \<open>
  \<open>s.strip()\<close> removes the characters for which \<open>str.isspace\<close> holds from both ends:
  U+0009 to U+000D, U+001C to U+0020, U+0085, U+00A0, U+1680, U+2000 to U+200A, U+2028,
  U+2029, U+202F, U+205F and U+3000.
\<close>

definition py_isspace :: "nat \<Rightarrow> bool" where
  "py_isspace c \<longleftrightarrow>
     (9 \<le> c \<and> c \<le> 13) \<or> (28 \<le> c \<and> c \<le> 32) \<or> c = 133 \<or> c = 160 \<or> c = 5760 \<or>
     (8192 \<le> c \<and> c \<le> 8202) \<or> c = 8232 \<or> c = 8233 \<or> c = 8239 \<or> c = 8287 \<or> c = 12288"

definition py_strip :: "ustring \<Rightarrow> ustring" where
  "py_strip s = rev (dropWhile py_isspace (rev (dropWhile py_isspace s)))"

text \<open>\<open>str(n)\<close> and the \<open>{n}\<close> of an f-string: decimal digits, a minus sign when negative.\<close>

fun digits_of :: "nat \<Rightarrow> ustring" where
  "digits_of n = (if n < 10 then [48 + n] else digits_of (n div 10) @ [48 + n mod 10])"

declare digits_of.simps [simp del]

definition str_of_int :: "int \<Rightarrow> ustring" where
  "str_of_int n = (if n < 0 then 45 # digits_of (nat (- n)) else digits_of (nat n))"

text \<open>
  \<open>int(s)\<close> on a string: surrounding whitespace is dropped, a sign may follow, then decimal
  digits with single underscores allowed between digits; anything else raises \<open>ValueError\<close>,
  here \<open>None\<close>. The model reads the ASCII digits only. Python also reads the decimal digits
  of other scripts and refuses very long literals; every statement below that has to hold
  whatever \<open>int\<close> returns is made about \<open>get_rgb_from_ansi_with\<close>, which takes the
  reading of the number as an argument.
\<close>

definition is_digit :: "nat \<Rightarrow> bool" where
  "is_digit c \<longleftrightarrow> 48 \<le> c \<and> c \<le> 57"

fun parse_dec :: "nat \<Rightarrow> ustring \<Rightarrow> nat option" where
  "parse_dec acc [] = Some acc"
| "parse_dec acc [c] = (if is_digit c then Some (acc * 10 + (c - 48)) else None)"
| "parse_dec acc (c # d # ds) =
     (if is_digit c then parse_dec (acc * 10 + (c - 48)) (d # ds)
      else if c = 95 \<and> is_digit d then parse_dec (acc * 10 + (d - 48)) ds
      else None)"

definition parse_unsigned :: "ustring \<Rightarrow> nat option" where
  "parse_unsigned s =
     (case s of [] \<Rightarrow> None | c # cs \<Rightarrow> if is_digit c then parse_dec (c - 48) cs else None)"

definition py_int_of_str :: "ustring \<Rightarrow> int option" where
  "py_int_of_str s =
     (case py_strip s of
        [] \<Rightarrow> None
      | c # cs \<Rightarrow>
          if c = 45 then map_option (\<lambda>n. - int n) (parse_unsigned cs)
          else if c = 43 then map_option int (parse_unsigned cs)
          else map_option int (parse_unsigned (c # cs)))"

subsection \<open>Floats\<close>

text \<open>
  A Python \<open>float\<close> and a NumPy \<open>float64\<close> are IEEE 754 binary64 numbers, and \<open>/\<close> and
  \<open>*\<close> return the representable number nearest to the exact result, ties to the even
  significand. A finite float is a rational, and \<open>to_double x\<close> is the rounding of the exact
  result \<open>x\<close>: \<open>binade x\<close> is the exponent \<open>k\<close> with \<open>2 powi k \<le> x < 2 powi (k + 1)\<close>, and
  the significand keeps 53 bits. The exponent is left unbounded: the results differ from
  binary64 only below \<open>2 powi (- 1022)\<close> and from \<open>2 powi 1024\<close> on, and every quantity
  below is a pixel value, a string length or a frame size.
\<close>

definition round_half_even :: "rat \<Rightarrow> int" where
  "round_half_even x =
     (let f = \<lfloor>x\<rfloor>; d = x - of_int f
      in if d < 1 / 2 then f else if 1 / 2 < d then f + 1 else if even f then f else f + 1)"

definition binade :: "rat \<Rightarrow> int" where
  "binade x =
     (let (p, q) = quotient_of x; k = bitlen p - bitlen q
      in if x < 2 powi k then k - 1 else k)"

definition to_double :: "rat \<Rightarrow> rat" where
  "to_double x =
     (if x = 0 then 0
      else let e = binade \<bar>x\<bar> - 52
           in of_int (round_half_even (x / 2 powi e)) * 2 powi e)"

text \<open>\<open>a / b\<close> on integers (the divisor is not zero where this is used), and \<open>x * y\<close>.\<close>

definition py_truediv :: "int \<Rightarrow> int \<Rightarrow> rat" where
  "py_truediv a b = to_double (of_int a / of_int b)"

definition py_fmul :: "rat \<Rightarrow> rat \<Rightarrow> rat" where
  "py_fmul x y = to_double (x * y)"

text \<open>\<open>int(x)\<close> on a float truncates towards zero; \<open>round(x)\<close> rounds half to even.\<close>

definition py_int_of_float :: "rat \<Rightarrow> int" where
  "py_int_of_float x = (if 0 \<le> x then \<lfloor>x\<rfloor> else \<lceil>x\<rceil>)"

definition py_round :: "rat \<Rightarrow> int" where
  "py_round x = round_half_even x"

section \<open>Glyph quantizer\<close>

text \<open>
  \<open>VideoToASCII.__init__\<close>: the alphabet is \<open>ascii_sets.get(quality, ascii_sets['medium'])\<close>;
  \<open>Other\<close> stands for any quality string that is not a key of the dictionary.
  \<open>SimpleVideoToASCII\<close> and \<open>ReliableVideoToASCII\<close> fix the medium alphabet.
\<close>

datatype quality = Low | Medium | High | Ultra | Other

definition ascii_sets :: "quality \<Rightarrow> ustring option" where
  "ascii_sets q =
     (case q of
        Low \<Rightarrow> Some (u ''@#*+=-:. '')
      | Medium \<Rightarrow> Some (u ''@%#*+=-:. '')
      | High \<Rightarrow> Some [9608, 9609, 9610, 9611, 9612, 9613, 9614, 9615, 32]
      | Ultra \<Rightarrow> Some [9608, 9608, 9619, 9618, 9617, 9618, 9619, 9608, 9608]
      | Other \<Rightarrow> None)"

definition ascii_chars :: "quality \<Rightarrow> ustring" where
  "ascii_chars q = (case ascii_sets q of Some s \<Rightarrow> s | None \<Rightarrow> u ''@%#*+=-:. '')"

definition simple_ascii_chars :: ustring where
  "simple_ascii_chars = u ''@%#*+=-:. ''"

text \<open>
  The same three lines in \<open>video_to_ascii.py\<close> (286 to 288), \<open>simple_ascii_video.py\<close>
  (40 to 42) and \<open>ascii_video_with_audio.py\<close> (58 to 61), with \<open>n = len(self.ascii_chars)\<close>:
  \<^verbatim>\<open>brightness = max(0, min(255, int(brightness)))\<close>
  \<^verbatim>\<open>char_index = int(brightness * (n - 1) / 255)\<close>
  \<^verbatim>\<open>char_index = max(0, min(n - 1, char_index))\<close>
\<close>

definition char_index :: "int \<Rightarrow> int \<Rightarrow> int" where
  "char_index n pixel =
     (let brightness = max 0 (min 255 pixel);
          idx = py_int_of_float (py_truediv (brightness * (n - 1)) 255)
      in max 0 (min (n - 1) idx))"

text \<open>\<open>self.ascii_chars[char_index]\<close>\<close>

definition glyph :: "ustring \<Rightarrow> int \<Rightarrow> py_error + nat" where
  "glyph chars pixel = py_index chars (char_index (int (length chars)) pixel)"

section \<open>Colour quantizer\<close>

type_synonym rgb = "int \<times> int \<times> int"

subsection \<open>256 colours: \<open>video_to_ascii.py\<close>\<close>

text \<open>\<^verbatim>\<open>f"\033[38;5;{n}m"\<close>\<close>

definition ansi256 :: "int \<Rightarrow> ustring" where
  "ansi256 n = 27 # u ''[38;5;'' @ str_of_int n @ u ''m''"

text \<open>\<^verbatim>\<open>int(c / 255 * k)\<close>, on a channel \<open>c\<close> of type \<open>numpy.uint8\<close>.\<close>

definition scale255 :: "int \<Rightarrow> int \<Rightarrow> int" where
  "scale255 c k = py_int_of_float (py_fmul (py_truediv c 255) (of_int k))"

definition get_color_code :: "bool \<Rightarrow> int \<Rightarrow> int \<Rightarrow> int \<Rightarrow> ustring" where
  "get_color_code use_color r g b =
     (if \<not> use_color then []
      else if r = g \<and> g = b then
        (if r < 8 then ansi256 16
         else if r > 248 then ansi256 231
         else let gray = 232 + scale255 r 23 in ansi256 gray)
      else
        (let r_idx = scale255 r 5; g_idx = scale255 g 5; b_idx = scale255 b 5;
             color_code = 16 + (36 * r_idx) + (6 * g_idx) + b_idx
         in ansi256 color_code))"

definition basic_colors :: "rgb list" where
  "basic_colors =
     [(0, 0, 0), (128, 0, 0), (0, 128, 0), (128, 128, 0),
      (0, 0, 128), (128, 0, 128), (0, 128, 128), (192, 192, 192),
      (128, 128, 128), (255, 0, 0), (0, 255, 0), (255, 255, 0),
      (0, 0, 255), (255, 0, 255), (0, 255, 255), (255, 255, 255)]"

definition white :: rgb where
  "white = (255, 255, 255)"

text \<open>
  The body of the \<open>try\<close> of \<open>get_rgb_from_ansi\<close>: \<open>Inl e\<close> when it raises \<open>e\<close>,
  \<open>Inr (Some c)\<close> when it returns \<open>c\<close>, \<open>Inr None\<close> when it runs to its end. The first
  argument is \<open>int\<close> on strings.
\<close>

definition get_rgb_try :: "(ustring \<Rightarrow> int option) \<Rightarrow> ustring \<Rightarrow> py_error + rgb option" where
  "get_rgb_try parse ansi_code =
     (case py_index (split_on 59 ansi_code) 2 of
        Inl e \<Rightarrow> Inl e
      | Inr field \<Rightarrow>
          (case parse (rstrip_char 109 field) of
             None \<Rightarrow> Inl ValueError
           | Some color_num \<Rightarrow>
               if 232 \<le> color_num \<and> color_num \<le> 255 then
                 (let gray_val = py_int_of_float (py_truediv ((color_num - 232) * 255) 23)
                  in Inr (Some (gray_val, gray_val, gray_val)))
               else if 16 \<le> color_num \<and> color_num \<le> 231 then
                 (let c = color_num - 16;
                      r = (c div 36) * 51;
                      g = ((c mod 36) div 6) * 51;
                      b = (c mod 6) * 51
                  in Inr (Some (r, g, b)))
               else if 0 \<le> color_num \<and> color_num < int (length basic_colors) then
                 (case py_index basic_colors color_num of
                    Inl e \<Rightarrow> Inl e
                  | Inr c \<Rightarrow> Inr (Some c))
               else Inr None))"

text \<open>
  \<open>get_rgb_from_ansi\<close>: the guard, the \<open>try\<close> with its \<open>except (ValueError, IndexError)\<close>,
  and the final \<open>return (255, 255, 255)\<close>. \<open>Inl e\<close> is an exception that leaves the function.
\<close>

definition get_rgb_from_ansi_with :: "(ustring \<Rightarrow> int option) \<Rightarrow> ustring \<Rightarrow> py_error + rgb" where
  "get_rgb_from_ansi_with parse ansi_code =
     (if ansi_code = [] \<or> \<not> startswith ansi_code (27 # u ''[38;5;'') then Inr white
      else (case get_rgb_try parse ansi_code of
              Inl e \<Rightarrow> if e = ValueError \<or> e = IndexError then Inr white else Inl e
            | Inr (Some c) \<Rightarrow> Inr c
            | Inr None \<Rightarrow> Inr white))"

definition get_rgb_from_ansi :: "ustring \<Rightarrow> py_error + rgb" where
  "get_rgb_from_ansi = get_rgb_from_ansi_with py_int_of_str"

text \<open>
  The strings that name a colour of the 256-colour palette: the prefix \<open>ESC [38;5;\<close>, and a
  third field that, without its trailing \<open>m\<close>, reads as a number from 0 to 255.
\<close>

definition palette_code_256 :: "(ustring \<Rightarrow> int option) \<Rightarrow> ustring \<Rightarrow> bool" where
  "palette_code_256 parse ansi_code \<longleftrightarrow>
     startswith ansi_code (27 # u ''[38;5;'') \<and>
     (case py_index (split_on 59 ansi_code) 2 of
        Inl e \<Rightarrow> False
      | Inr field \<Rightarrow>
          (case parse (rstrip_char 109 field) of
             None \<Rightarrow> False
           | Some n \<Rightarrow> 0 \<le> n \<and> n \<le> 255))"

subsection \<open>16 colours: \<open>ascii_video_with_audio.py\<close>\<close>

definition reliable_get_color_code :: "int \<Rightarrow> int \<Rightarrow> int \<Rightarrow> ustring" where
  "reliable_get_color_code r g b =
     (if r = g \<and> g = b then
        (if r < 64 then 27 # u ''[30m''
         else if r < 128 then 27 # u ''[90m''
         else if r < 192 then 27 # u ''[37m''
         else 27 # u ''[97m'')
      else
        (if r > g \<and> r > b then 27 # u ''[91m''
         else if g > r \<and> g > b then 27 # u ''[92m''
         else if b > r \<and> b > g then 27 # u ''[94m''
         else if r > 128 \<and> g > 128 then 27 # u ''[93m''
         else if r > 128 \<and> b > 128 then 27 # u ''[95m''
         else if g > 128 \<and> b > 128 then 27 # u ''[96m''
         else 27 # u ''[37m''))"

definition color_map :: "(ustring \<times> rgb) list" where
  "color_map =
     [(27 # u ''[30m'', (0, 0, 0)),
      (27 # u ''[90m'', (128, 128, 128)),
      (27 # u ''[37m'', (192, 192, 192)),
      (27 # u ''[97m'', (255, 255, 255)),
      (27 # u ''[91m'', (255, 0, 0)),
      (27 # u ''[92m'', (0, 255, 0)),
      (27 # u ''[94m'', (0, 0, 255)),
      (27 # u ''[93m'', (255, 255, 0)),
      (27 # u ''[95m'', (255, 0, 255)),
      (27 # u ''[96m'', (0, 255, 255))]"

text \<open>\<open>color_map.get(ansi_code, (255, 255, 255))\<close>\<close>

definition ansi_to_rgb :: "ustring \<Rightarrow> rgb" where
  "ansi_to_rgb ansi_code = (case map_of color_map ansi_code of Some c \<Rightarrow> c | None \<Rightarrow> white)"

section \<open>Frame renderer\<close>

subsection \<open>Row count of the resized frame\<close>

text \<open>
  \<open>resize_frame\<close> of \<open>video_to_ascii.py\<close>, and the first lines of \<open>frame_to_ascii\<close> in the
  two other files:
  \<^verbatim>\<open>aspect_ratio = height / original_width\<close>
  \<^verbatim>\<open>new_height = int(width * aspect_ratio * char_aspect_ratio)\<close>
  The float literals \<open>0.45\<close>, \<open>0.55\<close> and \<open>0.5\<close> denote the nearest binary64 numbers,
  and \<open>width\<close>, an integer, is converted to a float without loss (it is far below
  \<open>2 ^ 53\<close>). A frame of width 0 makes the division raise.
\<close>

definition new_height :: "rat \<Rightarrow> int \<Rightarrow> int \<Rightarrow> int \<Rightarrow> py_error + int" where
  "new_height char_aspect_ratio width height original_width =
     (if original_width = 0 then Inl ZeroDivisionError
      else let aspect_ratio = py_truediv height original_width
           in Inr (py_int_of_float
                     (py_fmul (py_fmul (of_int width) aspect_ratio) char_aspect_ratio)))"

definition char_aspect_ratio :: "quality \<Rightarrow> rat" where
  "char_aspect_ratio q = (if q = High then to_double (45 / 100) else to_double (55 / 100))"

definition resize_frame_rows :: "quality \<Rightarrow> int \<Rightarrow> int \<Rightarrow> int \<Rightarrow> py_error + int" where
  "resize_frame_rows q width height original_width =
     new_height (char_aspect_ratio q) width height original_width"

definition simple_rows :: "int \<Rightarrow> int \<Rightarrow> int \<Rightarrow> py_error + int" where
  "simple_rows width height original_width =
     new_height (to_double (5 / 10)) width height original_width"

subsection \<open>Pixels to text\<close>

text \<open>
  The resized frame comes from \<open>cv2.resize\<close> and \<open>cv2.cvtColor\<close>: a rectangular array, here
  the list of its rows. The loops visit the rows in order and the pixels of a row in order.
\<close>

fun mapE :: "('a \<Rightarrow> 'e + 'b) \<Rightarrow> 'a list \<Rightarrow> 'e + 'b list" where
  "mapE f [] = Inr []"
| "mapE f (x # xs) =
     (case f x of
        Inl e \<Rightarrow> Inl e
      | Inr y \<Rightarrow> (case mapE f xs of Inl e \<Rightarrow> Inl e | Inr ys \<Rightarrow> Inr (y # ys)))"

text \<open>\<open>SimpleVideoToASCII.frame_to_ascii\<close>, from \<open>resized\<close> on.\<close>

definition simple_frame_to_ascii :: "int list list \<Rightarrow> py_error + ustring" where
  "simple_frame_to_ascii resized =
     (case mapE (mapE (glyph simple_ascii_chars)) resized of
        Inl e \<Rightarrow> Inl e
      | Inr rows \<Rightarrow> Inr (concat (map (\<lambda>row. row @ [10]) rows)))"

text \<open>
  \<open>VideoToASCII.frame_to_ascii\<close>, from \<open>gray_resized\<close> and \<open>resized_frame\<close> on: a pixel is
  its brightness and its \<open>(b, g, r)\<close> triple.
\<close>

definition cell :: "bool \<Rightarrow> ustring \<Rightarrow> int \<times> (int \<times> int \<times> int) \<Rightarrow> py_error + ustring" where
  "cell use_color chars px =
     (case px of (brightness, (b, g, r)) \<Rightarrow>
        (case glyph chars brightness of
           Inl e \<Rightarrow> Inl e
         | Inr char \<Rightarrow>
             Inr (if use_color then get_color_code use_color r g b @ [char] else [char])))"

definition frame_to_ascii ::
  "bool \<Rightarrow> quality \<Rightarrow> (int \<times> (int \<times> int \<times> int)) list list \<Rightarrow> py_error + ustring" where
  "frame_to_ascii use_color q resized =
     (case mapE (mapE (cell use_color (ascii_chars q))) resized of
        Inl e \<Rightarrow> Inl e
      | Inr rows \<Rightarrow>
          Inr (concat (map (\<lambda>row. concat row @ [10]) rows)
               @ (if use_color then 27 # u ''[0m'' else [])))"

section \<open>Text compositor: image sizes\<close>

text \<open>
  \<open>SimpleVideoToASCII.ascii_to_simple_image\<close>: the size of the image it creates, \<open>None\<close>
  where it returns \<open>None\<close>. The first argument is \<open>PIL_AVAILABLE\<close>; \<open>char_width\<close> is 8 and
  \<open>char_height\<close> is 16.
\<close>

definition ascii_to_simple_image_size :: "bool \<Rightarrow> ustring \<Rightarrow> (int \<times> int) option" where
  "ascii_to_simple_image_size pil ascii_text =
     (if \<not> pil then None
      else let lines = split_on 10 (py_strip ascii_text)
           in (case lines of
                 [] \<Rightarrow> None
               | l0 # _ \<Rightarrow> Some (int (length l0) * 8, int (length lines) * 16)))"

text \<open>\<^verbatim>\<open>re.sub(r'\033\[[0-9;]*m', '', line)\<close>\<close>

definition is_param :: "nat \<Rightarrow> bool" where
  "is_param c \<longleftrightarrow> (48 \<le> c \<and> c \<le> 57) \<or> c = 59"

function strip_ansi :: "ustring \<Rightarrow> ustring" where
  "strip_ansi [] = []"
| "strip_ansi (c # cs) =
     (if c = 27 \<and> take 1 cs = [91] \<and> take 1 (dropWhile is_param (drop 1 cs)) = [109]
      then strip_ansi (drop 1 (dropWhile is_param (drop 1 cs)))
      else c # strip_ansi cs)"
  by pat_completeness auto
termination
proof (relation "measure length")
  fix c :: nat and cs :: ustring
  have "length (drop 1 (dropWhile is_param (drop 1 cs))) \<le> length cs"
    using length_dropWhile_le [of is_param "drop 1 cs"] by simp
  then show "(drop 1 (dropWhile is_param (drop 1 cs)), c # cs) \<in> measure length" by simp
qed simp_all

text \<open>
  \<open>VideoToASCII.ascii_to_image\<close>: the size of the image it creates. \<open>char_width\<close> is 6 and
  \<open>char_height\<close> 12 for quality \<open>high\<close>, 8 and 14 otherwise.
\<close>

definition char_width :: "quality \<Rightarrow> int" where
  "char_width q = (if q = High then 6 else 8)"

definition char_height :: "quality \<Rightarrow> int" where
  "char_height q = (if q = High then 12 else 14)"

definition ascii_to_image_size :: "bool \<Rightarrow> quality \<Rightarrow> int \<Rightarrow> ustring \<Rightarrow> (int \<times> int) option" where
  "ascii_to_image_size pil q width ascii_text =
     (if \<not> pil then None
      else let lines = split_on 10 (py_strip ascii_text)
           in if lines = [] then None
              else let clean_lines = map strip_ansi lines;
                       max_width = (if clean_lines \<noteq> []
                                    then Max (set (map (\<lambda>line. int (length line)) clean_lines))
                                    else width)
                   in Some (max_width * char_width q, int (length clean_lines) * char_height q))"

section \<open>Sequence assembler: frames handed to the video writer\<close>

text \<open>
  The writer is opened with the size of the image of the first text frame. The functions
  return that size and the sizes of the images passed to \<open>out.write\<close>, in order; \<open>None\<close>
  where the function returns before it opens the writer. Opening the writer and writing
  a frame are calls into OpenCV and are taken to succeed.
\<close>

text \<open>\<open>SimpleVideoToASCII.create_video\<close>, lines 118 to 150.\<close>

definition simple_create_video_written ::
  "bool \<Rightarrow> ustring list \<Rightarrow> ((int \<times> int) \<times> (int \<times> int) list) option" where
  "simple_create_video_written pil ascii_frames =
     (case ascii_frames of
        [] \<Rightarrow> None
      | first # _ \<Rightarrow>
          (case ascii_to_simple_image_size pil first of
             None \<Rightarrow> None
           | Some dims \<Rightarrow>
               Some (dims,
                     concat (map (\<lambda>ascii_frame.
                                    case ascii_to_simple_image_size pil ascii_frame of
                                      None \<Rightarrow> []
                                    | Some img \<Rightarrow> [img])
                                 ascii_frames))))"

text \<open>
  \<open>VideoToASCII.save_ascii_video\<close>, lines 376 to 439: an image whose size is not the
  writer's is resized to it before it is written.
\<close>

definition save_ascii_video_written ::
  "bool \<Rightarrow> quality \<Rightarrow> int \<Rightarrow> ustring list \<Rightarrow> ((int \<times> int) \<times> (int \<times> int) list) option" where
  "save_ascii_video_written pil q w ascii_frames =
     (if \<not> pil then None
      else case ascii_frames of
        [] \<Rightarrow> None
      | first # _ \<Rightarrow>
          (case ascii_to_image_size pil q w first of
             None \<Rightarrow> None
           | Some (width, height) \<Rightarrow>
               Some ((width, height),
                     concat (map (\<lambda>ascii_frame.
                                    case ascii_to_image_size pil q w ascii_frame of
                                      None \<Rightarrow> []
                                    | Some (actual_width, actual_height) \<Rightarrow>
                                        if actual_height \<noteq> height \<or> actual_width \<noteq> width
                                        then [(width, height)]
                                        else [(actual_width, actual_height)])
                                 ascii_frames))))"

section \<open>Audio: the end of a save-video run\<close>

text \<open>
  The files on disk are a set of paths. What MoviePy does in one run is an input:
  whether it is installed, how \<open>extract_audio\<close> ends and how \<open>combine_video_audio\<close> ends. An
  exception inside either function is caught there; the flag of a failure says whether
  the file being written was left on disk. The printed messages are kept in order, without
  their emoji and without the values an f-string inserts.
\<close>

datatype extract_outcome = AudioWritten | NoAudioTrack | ExtractRaises bool

datatype combine_outcome = Combined | CombineRaises bool

record moviepy =
  available :: bool
  extract_ends :: extract_outcome
  combine_ends :: combine_outcome

record run_state =
  files :: "string set"
  printed :: "string list"

definition say :: "string \<Rightarrow> run_state \<Rightarrow> run_state" where
  "say msg s = s\<lparr>printed := printed s @ [msg]\<rparr>"

definition remove_if_exists :: "string \<Rightarrow> run_state \<Rightarrow> run_state" where
  "remove_if_exists path s = (if path \<in> files s then s\<lparr>files := files s - {path}\<rparr> else s)"

definition extract_audio :: "moviepy \<Rightarrow> run_state \<Rightarrow> string option \<times> run_state" where
  "extract_audio mp s =
     (if \<not> available mp then (None, s)
      else case extract_ends mp of
        AudioWritten \<Rightarrow> (Some ''temp_audio.wav'', s\<lparr>files := insert ''temp_audio.wav'' (files s)\<rparr>)
      | NoAudioTrack \<Rightarrow> (None, say ''Warning: No audio track found in the video'' s)
      | ExtractRaises left \<Rightarrow>
          (None, say ''Warning: Could not extract audio''
                   (if left then s\<lparr>files := insert ''temp_audio.wav'' (files s)\<rparr> else s)))"

definition combine_video_audio ::
  "moviepy \<Rightarrow> string \<Rightarrow> string \<Rightarrow> string \<Rightarrow> run_state \<Rightarrow> bool \<times> run_state" where
  "combine_video_audio mp video_path audio_path output_path s =
     (if \<not> available mp
      then (False, say ''Warning: moviepy not available, saving video without audio'' s)
      else case combine_ends mp of
        Combined \<Rightarrow> (True, s\<lparr>files := insert output_path (files s)\<rparr>)
      | CombineRaises left \<Rightarrow>
          (False, say ''Error combining video and audio''
                    (if left then s\<lparr>files := insert output_path (files s)\<rparr> else s)))"

text \<open>\<open>ReliableVideoToASCII.extract_audio\<close> and \<open>combine_video_audio\<close>.\<close>

definition reliable_extract_audio :: "moviepy \<Rightarrow> run_state \<Rightarrow> string option \<times> run_state" where
  "reliable_extract_audio mp s =
     (if \<not> available mp then (None, s)
      else case extract_ends mp of
        AudioWritten \<Rightarrow> (Some ''temp_audio.wav'', s\<lparr>files := insert ''temp_audio.wav'' (files s)\<rparr>)
      | NoAudioTrack \<Rightarrow> (None, say ''No audio track found'' s)
      | ExtractRaises left \<Rightarrow>
          (None, say ''Audio extraction failed''
                   (if left then s\<lparr>files := insert ''temp_audio.wav'' (files s)\<rparr> else s)))"

definition reliable_combine_video_audio ::
  "moviepy \<Rightarrow> string \<Rightarrow> string \<Rightarrow> string \<Rightarrow> run_state \<Rightarrow> bool \<times> run_state" where
  "reliable_combine_video_audio mp video_path audio_path output_path s =
     (if \<not> available mp then (False, s)
      else case combine_ends mp of
        Combined \<Rightarrow> (True, s\<lparr>files := insert output_path (files s)\<rparr>)
      | CombineRaises left \<Rightarrow>
          (False, say ''Audio combination failed''
                    (if left then s\<lparr>files := insert output_path (files s)\<rparr> else s)))"

text \<open>
  The last lines of both \<open>save_ascii_video\<close> and \<open>create_video\<close>: the temporary video is
  renamed to the output path.
\<close>

definition rename_temp :: "string \<Rightarrow> string \<Rightarrow> run_state \<Rightarrow> bool \<times> run_state" where
  "rename_temp temp_video_path output_path s =
     (if temp_video_path \<in> files s then
        (let s1 = remove_if_exists output_path s;
             s2 = s1\<lparr>files := insert output_path (files s1 - {temp_video_path})\<rparr>
         in (True, say ''ASCII video saved (no audio)'' s2))
      else (False, s))"

text \<open>
  \<open>VideoToASCII.save_ascii_video\<close>, lines 448 to 477, entered once the frames are written
  to \<open>temp_ascii_video.avi\<close>. \<open>original_video_path\<close> is \<open>None\<close> or a path.
\<close>

definition save_ascii_video_finish ::
  "moviepy \<Rightarrow> bool \<Rightarrow> string option \<Rightarrow> string \<Rightarrow> run_state \<Rightarrow> bool \<times> run_state" where
  "save_ascii_video_finish mp preserve_audio original_video_path output_path s =
     (let temp_video_path = ''temp_ascii_video.avi'' in
      if preserve_audio \<and> original_video_path \<noteq> None \<and> original_video_path \<noteq> Some []
         \<and> available mp
      then
        (case extract_audio mp (say ''Extracting audio from original video...'' s) of
           (Some audio_path, s1) \<Rightarrow>
             (case combine_video_audio mp temp_video_path audio_path output_path
                     (say ''Combining video with audio...'' s1) of
                (success, s2) \<Rightarrow>
                  (let s3 = remove_if_exists audio_path (remove_if_exists temp_video_path s2)
                   in if success then (True, say ''ASCII video with audio saved'' s3)
                      else rename_temp temp_video_path output_path
                             (say ''Failed to combine audio, saving video without audio...'' s3)))
         | (None, s1) \<Rightarrow> rename_temp temp_video_path output_path s1)
      else rename_temp temp_video_path output_path s)"

text \<open>\<open>ReliableVideoToASCII.create_video\<close>, lines 307 to 334; the temporary video is
  \<open>temp_ascii.avi\<close>.\<close>

definition reliable_create_video_finish ::
  "moviepy \<Rightarrow> bool \<Rightarrow> string \<Rightarrow> run_state \<Rightarrow> bool \<times> run_state" where
  "reliable_create_video_finish mp preserve_audio output_path s =
     (let temp_video = ''temp_ascii.avi'' in
      if preserve_audio \<and> available mp
      then
        (case reliable_extract_audio mp (say ''Extracting audio...'' s) of
           (Some audio_path, s1) \<Rightarrow>
             (case reliable_combine_video_audio mp temp_video audio_path output_path
                     (say ''Combining video with audio...'' s1) of
                (success, s2) \<Rightarrow>
                  (let s3 = remove_if_exists audio_path (remove_if_exists temp_video s2)
                   in if success then (True, say ''ASCII video with audio saved'' s3)
                      else rename_temp temp_video output_path s3))
         | (None, s1) \<Rightarrow> rename_temp temp_video output_path s1)
      else rename_temp temp_video output_path s)"

section \<open>Properties of the rounding to binary64\<close>

lemma round_half_even_of_int: "round_half_even (of_int n) = n"
  by (simp add: round_half_even_def)

lemma round_half_even_near:
  "\<bar>of_int (round_half_even x) - x\<bar> \<le> 1/2"
  unfolding round_half_even_def Let_def
  by (auto simp: abs_if) linarith+

lemma round_half_even_mono:
  assumes "x \<le> y" shows "round_half_even x \<le> round_half_even y"
proof (cases "\<lfloor>x\<rfloor> = \<lfloor>y\<rfloor>")
  case True
  then show ?thesis using assms
    unfolding round_half_even_def Let_def by auto
next
  case False
  with assms have lt: "\<lfloor>x\<rfloor> < \<lfloor>y\<rfloor>"
    by (simp add: floor_mono order.strict_iff_order)
  have "round_half_even x \<le> \<lfloor>x\<rfloor> + 1"
    unfolding round_half_even_def Let_def by auto
  moreover have "\<lfloor>y\<rfloor> \<le> round_half_even y"
    unfolding round_half_even_def Let_def by auto
  ultimately show ?thesis using lt by linarith
qed

lemma pow2_bitlen:
  assumes "0 < p"
  shows "(2::rat) powi (bitlen p - 1) \<le> of_int p" and "of_int p < (2::rat) powi bitlen p"
proof -
  from bitlen_bounds [OF assms]
  have a: "2 ^ nat (bitlen p - 1) \<le> p" and b: "p < 2 ^ nat (bitlen p)" by auto
  have ge1: "1 \<le> bitlen p"
    using assms bitlen_eq_zero_iff [of p] bitlen_nonneg [of p] by linarith
  have "(of_int (2 ^ nat (bitlen p - 1)) :: rat) \<le> of_int p"
    using a by (simp only: of_int_le_iff)
  then show "(2::rat) powi (bitlen p - 1) \<le> of_int p"
    using ge1 by (simp add: power_int_def)
  have "(of_int p :: rat) < of_int (2 ^ nat (bitlen p))"
    using b by (simp only: of_int_less_iff)
  then show "of_int p < (2::rat) powi bitlen p"
    using ge1 by (simp add: power_int_def)
qed

lemma binade_bounds:
  assumes "0 < x"
  shows "2 powi binade x \<le> x" and "x < 2 powi (binade x + 1)"
proof -
  obtain p q where pq: "quotient_of x = (p, q)" by (cases "quotient_of x")
  then have q: "0 < q" and x: "x = of_int p / of_int q"
    using quotient_of_denom_pos quotient_of_div by auto
  have p: "0 < p" using assms q x by (simp add: zero_less_divide_iff)
  define k where "k = bitlen p - bitlen q"
  note P = pow2_bitlen [OF p] and Q = pow2_bitlen [OF q]
  have qpos: "(0::rat) < of_int q" using q by simp
  have up: "x < 2 powi (k + 1)"
  proof -
    have "of_int p < (2::rat) powi (k + 1) * 2 powi (bitlen q - 1)"
      using P(2) by (simp add: k_def flip: power_int_add)
    also have "\<dots> \<le> 2 powi (k + 1) * of_int q"
      using Q(1) by (intro mult_left_mono) auto
    finally show ?thesis using qpos by (simp add: x pos_divide_less_eq)
  qed
  have lo: "2 powi (k - 1) \<le> x"
  proof -
    have "(2::rat) powi (k - 1) * of_int q \<le> 2 powi (k - 1) * 2 powi bitlen q"
      using Q(2) by (intro mult_left_mono) auto
    also have "\<dots> = 2 powi (bitlen p - 1)"
      by (simp add: k_def flip: power_int_add)
    also have "\<dots> \<le> of_int p" by (rule P(1))
    finally show ?thesis using qpos by (simp add: x pos_le_divide_eq)
  qed
  have b: "binade x = (if x < 2 powi k then k - 1 else k)"
    by (simp add: binade_def pq k_def)
  show "2 powi binade x \<le> x" using lo by (simp add: b)
  show "x < 2 powi (binade x + 1)" using up by (simp add: b)
qed

lemma pow2_less_iff: "(2::rat) powi m < 2 powi n \<longleftrightarrow> m < n"
proof
  assume a: "(2::rat) powi m < 2 powi n"
  show "m < n"
  proof (rule ccontr)
    assume "\<not> m < n"
    then have "n \<le> m" by simp
    then have "(2::rat) powi n \<le> 2 powi m" by (intro power_int_increasing) auto
    with a show False by simp
  qed
next
  assume "m < n"
  then show "(2::rat) powi m < 2 powi n" by (intro power_int_strict_increasing) auto
qed

lemma pow2_shift: "(2::rat) ^ n * 2 powi k = 2 powi (int n + k)"
  by (subst power_int_add) simp_all

lemma binade_unique:
  assumes "2 powi k \<le> x" "x < 2 powi (k + 1)"
  shows "binade x = k"
proof -
  have "(0::rat) < 2 powi k" by simp
  with assms(1) have pos: "0 < x" by linarith
  note B = binade_bounds [OF pos]
  have "(2::rat) powi k < 2 powi (binade x + 1)" using assms(1) B(2) by linarith
  then have 1: "k < binade x + 1" by (simp only: pow2_less_iff)
  have "(2::rat) powi binade x < 2 powi (k + 1)" using assms(2) B(1) by linarith
  then have 2: "binade x < k + 1" by (simp only: pow2_less_iff)
  from 1 2 show ?thesis by linarith
qed

lemma binade_mono:
  assumes "0 < x" "x \<le> y"
  shows "binade x \<le> binade y"
proof -
  have y: "0 < y" using assms by linarith
  have "(2::rat) powi binade x \<le> x" by (rule binade_bounds(1) [OF assms(1)])
  also have "x \<le> y" by fact
  also have "y < 2 powi (binade y + 1)" by (rule binade_bounds(2) [OF y])
  finally have "binade x < binade y + 1" by (simp only: pow2_less_iff)
  then show ?thesis by simp
qed

lemma to_double_pos_eq:
  assumes "0 < x"
  shows "to_double x = of_int (round_half_even (x / 2 powi (binade x - 52))) * 2 powi (binade x - 52)"
  using assms by (simp add: to_double_def Let_def)

lemma mantissa_bounds:
  assumes "0 < x"
  shows "2 ^ 52 \<le> x / 2 powi (binade x - 52)" and "x / 2 powi (binade x - 52) < 2 ^ 53"
proof -
  have p: "(0::rat) < 2 powi (binade x - 52)" by simp
  have a: "(2::rat) ^ 52 * 2 powi (binade x - 52) = 2 powi binade x"
    by (simp only: pow2_shift) simp
  have b: "(2::rat) ^ 53 * 2 powi (binade x - 52) = 2 powi (binade x + 1)"
    by (simp only: pow2_shift) (simp add: algebra_simps)
  show "2 ^ 52 \<le> x / 2 powi (binade x - 52)"
    using binade_bounds(1) [OF assms] p by (simp only: pos_le_divide_eq a)
  show "x / 2 powi (binade x - 52) < 2 ^ 53"
    using binade_bounds(2) [OF assms] p by (simp only: pos_divide_less_eq b)
qed

lemma to_double_error:
  assumes "0 < x"
  shows "\<bar>to_double x - x\<bar> \<le> x / 2 ^ 53"
proof -
  define e where "e = binade x - 52"
  define m where "m = x / 2 powi e"
  have p: "(0::rat) < 2 powi e" by simp
  have x: "m * 2 powi e = x" by (simp add: m_def)
  have f: "to_double x = of_int (round_half_even m) * 2 powi e"
    using to_double_pos_eq [OF assms] by (simp add: e_def m_def)
  have "to_double x - x = (of_int (round_half_even m) - m) * 2 powi e"
    by (simp add: f x algebra_simps)
  then have "\<bar>to_double x - x\<bar> = \<bar>of_int (round_half_even m) - m\<bar> * 2 powi e"
    by (simp add: abs_mult)
  also have "\<dots> \<le> 1/2 * 2 powi e"
    using round_half_even_near [of m] by (intro mult_right_mono) auto
  also have "\<dots> \<le> (m / 2 ^ 53) * 2 powi e"
  proof (intro mult_right_mono)
    have "2 ^ 52 \<le> m" using mantissa_bounds(1) [OF assms] by (simp add: m_def e_def)
    then show "1 / 2 \<le> m / 2 ^ 53" by simp
  qed auto
  also have "\<dots> = x / 2 ^ 53" by (simp flip: x)
  finally show ?thesis .
qed

lemma to_double_exact:
  assumes m: "0 < m" "m < 2 ^ 53"
  shows "to_double (of_int m * 2 powi j) = of_int m * 2 powi j"
proof -
  define x :: rat where "x = of_int m * 2 powi j"
  have pos: "0 < x" using m by (simp add: x_def)
  define e where "e = binade x - 52"
  have "(2::rat) powi binade x \<le> x" by (rule binade_bounds(1) [OF pos])
  also have "x < 2 ^ 53 * 2 powi j"
  proof -
    have "(of_int m :: rat) < of_int (2 ^ 53)" using m(2) by (simp only: of_int_less_iff)
    then show ?thesis by (simp add: x_def)
  qed
  also have "(2::rat) ^ 53 * 2 powi j = 2 powi (53 + j)"
    by (simp only: pow2_shift) simp
  finally have "binade x < 53 + j" by (simp only: pow2_less_iff)
  then have ej: "e \<le> j" by (simp add: e_def)
  have "(2::rat) powi j = 2 powi (j - e) * 2 powi e" by (simp flip: power_int_add)
  also have "(2::rat) powi (j - e) = of_int (2 ^ nat (j - e))"
    using ej by (simp add: power_int_def)
  finally have j: "(2::rat) powi j = of_int (2 ^ nat (j - e)) * 2 powi e" .
  have "x / 2 powi e = of_int (m * 2 ^ nat (j - e))"
    by (simp add: x_def j)
  then have "round_half_even (x / 2 powi e) = m * 2 ^ nat (j - e)"
    by (simp only: round_half_even_of_int)
  then have "to_double x = of_int (m * 2 ^ nat (j - e)) * 2 powi e"
    using to_double_pos_eq [OF pos] by (simp add: e_def)
  also have "\<dots> = x" by (simp add: x_def j)
  finally show ?thesis by (simp add: x_def)
qed

lemma to_double_of_int:
  assumes "0 \<le> n" "n < 2 ^ 53"
  shows "to_double (of_int n) = of_int n"
proof (cases "n = 0")
  case True
  then show ?thesis by (simp add: to_double_def)
next
  case False
  with assms have "0 < n" by simp
  from to_double_exact [OF this assms(2), of 0] show ?thesis by simp
qed

lemma to_double_nonneg:
  assumes "0 \<le> x" shows "0 \<le> to_double x"
proof (cases "x = 0")
  case True
  then show ?thesis by (simp add: to_double_def)
next
  case False
  with assms have pos: "0 < x" by simp
  have "0 \<le> x / 2 powi (binade x - 52)" using assms by simp
  from round_half_even_mono [OF this] have "0 \<le> round_half_even (x / 2 powi (binade x - 52))"
    using round_half_even_of_int [of 0] by simp
  then show ?thesis by (simp add: to_double_pos_eq [OF pos])
qed

lemma to_double_mono:
  assumes "0 \<le> x" "x \<le> y"
  shows "to_double x \<le> to_double y"
proof (cases "x = 0")
  case True
  then show ?thesis using to_double_nonneg [of y] assms by (simp add: to_double_def)
next
  case False
  with assms have x: "0 < x" and y: "0 < y" by auto
  define ex where "ex = binade x - 52"
  define ey where "ey = binade y - 52"
  have exy: "ex \<le> ey" using binade_mono [OF x assms(2)] by (simp add: ex_def ey_def)
  have fx: "to_double x = of_int (round_half_even (x / 2 powi ex)) * 2 powi ex"
    using to_double_pos_eq [OF x] by (simp add: ex_def)
  have fy: "to_double y = of_int (round_half_even (y / 2 powi ey)) * 2 powi ey"
    using to_double_pos_eq [OF y] by (simp add: ey_def)
  show ?thesis
  proof (cases "ex = ey")
    case True
    have "x / 2 powi ey \<le> y / 2 powi ey" using assms(2) by (simp add: divide_right_mono)
    from round_half_even_mono [OF this] show ?thesis
      by (simp add: fx fy True)
  next
    case False
    with exy have lt: "ex + 1 \<le> ey" by simp
    have "x / 2 powi ex \<le> of_int (2 ^ 53)"
      using mantissa_bounds(2) [OF x] by (simp add: ex_def)
    from round_half_even_mono [OF this]
    have "round_half_even (x / 2 powi ex) \<le> 2 ^ 53"
      by (simp only: round_half_even_of_int)
    then have "(of_int (round_half_even (x / 2 powi ex)) :: rat) \<le> of_int (2 ^ 53)"
      by (simp only: of_int_le_iff)
    then have "to_double x \<le> of_int (2 ^ 53) * 2 powi ex"
      unfolding fx by (intro mult_right_mono) auto
    also have "\<dots> = 2 ^ 52 * 2 powi (ex + 1)"
      by (simp add: power_int_add)
    also have "\<dots> \<le> 2 ^ 52 * 2 powi ey"
      using lt by (intro mult_left_mono power_int_increasing) auto
    also have "\<dots> \<le> to_double y"
    proof -
      have "of_int (2 ^ 52) \<le> y / 2 powi ey"
        using mantissa_bounds(1) [OF y] by (simp add: ey_def)
      from round_half_even_mono [OF this]
      have "2 ^ 52 \<le> round_half_even (y / 2 powi ey)"
        by (simp only: round_half_even_of_int)
      then have "(of_int (2 ^ 52) :: rat) \<le> of_int (round_half_even (y / 2 powi ey))"
        by (simp only: of_int_le_iff)
      then show ?thesis unfolding fy by (intro mult_right_mono) auto
    qed
    finally show ?thesis .
  qed
qed

lemma int_true_div:
  assumes a: "0 \<le> a" and d: "0 < d" and bound: "a < 2 ^ 53"
  shows "py_int_of_float (to_double (of_int a / of_int d)) = a div d"
proof -
  define n where "n = a div d"
  define \<rho> where "\<rho> = a mod d"
  define x :: rat where "x = of_int a / of_int d"
  have dpos: "(0::rat) < of_int d" using d by simp
  have n0: "0 \<le> n" using a d by (simp add: n_def pos_imp_zdiv_nonneg_iff)
  have na: "n \<le> a" using a d zdiv_mono2 [of a 1 d] by (simp add: n_def)
  have decomp: "a = n * d + \<rho>" by (simp add: n_def \<rho>_def)
  have x0: "0 \<le> x" using a d by (simp add: x_def)
  have xd: "x * of_int d = of_int a" using d by (simp add: x_def)
  have "\<lfloor>to_double x\<rfloor> = n"
  proof (cases "\<rho> = 0")
    case True
    then have "x = of_int n" using decomp d by (simp add: x_def)
    moreover have "to_double (of_int n) = (of_int n :: rat)"
      using n0 na bound by (intro to_double_of_int) auto
    ultimately show ?thesis by simp
  next
    case False
    have "0 \<le> a mod d" "a mod d < d" using d by simp_all
    with False have r1: "1 \<le> \<rho>" and r2: "\<rho> \<le> d - 1"
      unfolding \<rho>_def by linarith+
    have xeq: "x = of_int n + of_int \<rho> / of_int d"
      using d by (simp add: x_def decomp add_divide_distrib)
    have lo: "of_int n + 1 / of_int d \<le> x"
    proof -
      have "(1::rat) \<le> of_int \<rho>" using r1 by simp
      then have "1 / of_int d \<le> (of_int \<rho> :: rat) / of_int d"
        using dpos by (simp add: divide_right_mono)
      then show ?thesis by (simp add: xeq)
    qed
    have hi: "x \<le> of_int n + 1 - 1 / of_int d"
    proof -
      have "(of_int \<rho> :: rat) \<le> of_int (d - 1)" using r2 by (simp only: of_int_le_iff)
      then have "(of_int \<rho> :: rat) \<le> of_int d - 1" by simp
      then have "(of_int \<rho> :: rat) / of_int d \<le> (of_int d - 1) / of_int d"
        using dpos by (simp add: divide_right_mono)
      also have "\<dots> = 1 - 1 / of_int d" using dpos by (simp add: diff_divide_distrib)
      finally show ?thesis by (simp add: xeq)
    qed
    have "(0::rat) \<le> of_int n" using n0 by simp
    moreover have "(0::rat) < 1 / of_int d" using dpos by simp
    ultimately have xpos: "0 < x" using lo by linarith
    have err: "x / 2 ^ 53 < 1 / of_int d"
    proof -
      have "(of_int a :: rat) < of_int (2 ^ 53)" using bound by (simp only: of_int_less_iff)
      then have "x * of_int d < 2 ^ 53" by (simp add: xd)
      then show ?thesis using dpos by (simp add: field_simps)
    qed
    define \<epsilon> where "\<epsilon> = x / 2 ^ 53"
    have "\<bar>to_double x - x\<bar> \<le> \<epsilon>" using to_double_error [OF xpos] by (simp only: \<epsilon>_def)
    then have "x - \<epsilon> \<le> to_double x" "to_double x \<le> x + \<epsilon>" by linarith+
    moreover have "\<epsilon> < 1 / of_int d" using err by (simp only: \<epsilon>_def)
    ultimately have "of_int n \<le> to_double x" "to_double x < of_int n + 1" using lo hi by linarith+
    then show ?thesis by (simp add: floor_unique)
  qed
  moreover have "0 \<le> to_double x" by (rule to_double_nonneg [OF x0])
  ultimately show ?thesis by (simp add: py_int_of_float_def x_def n_def)
qed

lemma scale_inexact:
  assumes r: "0 \<le> r" "r \<le> 255" and k: "1 \<le> k" "k \<le> 23"
    and ne: "r * k mod 255 \<noteq> 0"
  shows "py_int_of_float (to_double (to_double (of_int r / 255) * of_int k)) = r * k div 255"
proof -
  define n where "n = r * k div 255"
  define \<rho> where "\<rho> = r * k mod 255"
  define x :: rat where "x = of_int r / 255"
  define y where "y = to_double x"
  define w where "w = y * of_int k"
  define z where "z = to_double w"
  define u :: rat where "u = 1 / 2 ^ 53"
  have u: "0 < u" "48 * u < 1 / 255" by (simp_all add: u_def)
  have "r \<noteq> 0" using ne by auto
  with r have r1: "1 \<le> r" by simp
  then have "(1::rat) \<le> of_int r" by simp
  then have xlo: "1 / 255 \<le> x" by (simp add: x_def)
  have "(of_int r :: rat) \<le> 255" using r(2) by simp
  then have x1: "x \<le> 1" by (simp add: x_def)
  have xpos: "0 < x" using xlo by simp
  have kr: "(1::rat) \<le> of_int k" "(of_int k :: rat) \<le> 23" using k by simp_all
  have "0 \<le> \<rho>" "\<rho> < 255" by (simp_all add: \<rho>_def)
  with ne have "1 \<le> \<rho>" "\<rho> \<le> 254" unfolding \<rho>_def by linarith+
  then have \<rho>r: "(1::rat) \<le> of_int \<rho>" "(of_int \<rho> :: rat) \<le> 254" by simp_all
  have n0: "0 \<le> n" using r k by (simp add: n_def pos_imp_zdiv_nonneg_iff)
  have "r * k \<le> 255 * 23" using r k by (intro mult_mono) auto
  then have "n \<le> 23" unfolding n_def by linarith
  then have nr: "(0::rat) \<le> of_int n" "(of_int n :: rat) \<le> 23" using n0 by simp_all
  have xk: "x * of_int k = of_int n + of_int \<rho> / 255"
  proof -
    have "r * k = n * 255 + \<rho>" by (simp add: n_def \<rho>_def)
    then have "(of_int (r * k) :: rat) = of_int (n * 255 + \<rho>)" by (simp only:)
    then show ?thesis by (simp add: x_def field_simps)
  qed
  have xklo: "of_int n + 1 / 255 \<le> x * of_int k" and xkhi: "x * of_int k \<le> of_int n + 254 / 255"
    using \<rho>r by (simp_all add: xk)
  have ey: "\<bar>y - x\<bar> \<le> u"
  proof -
    have "\<bar>y - x\<bar> \<le> x / 2 ^ 53" unfolding y_def by (rule to_double_error [OF xpos])
    also have "\<dots> = x * u" by (simp add: u_def)
    also have "\<dots> \<le> 1 * u" using x1 u(1) by (intro mult_right_mono) auto
    finally show ?thesis by simp
  qed
  have ypos: "0 < y" using ey xlo u by linarith
  have ew: "\<bar>w - x * of_int k\<bar> \<le> 23 * u"
  proof -
    have "w - x * of_int k = (y - x) * of_int k" by (simp add: w_def algebra_simps)
    then have "\<bar>w - x * of_int k\<bar> = \<bar>y - x\<bar> * of_int k"
      using kr by (simp add: abs_mult)
    also have "\<dots> \<le> u * 23"
      using ey kr by (intro mult_mono) auto
    finally show ?thesis by simp
  qed
  have wpos: "0 < w" using ypos kr by (simp add: w_def)
  have w25: "w \<le> 25" using ew xkhi nr u by linarith
  have ez: "\<bar>z - w\<bar> \<le> 25 * u"
  proof -
    have "\<bar>z - w\<bar> \<le> w / 2 ^ 53" unfolding z_def by (rule to_double_error [OF wpos])
    also have "\<dots> = w * u" by (simp add: u_def)
    also have "\<dots> \<le> 25 * u" using w25 u(1) by (intro mult_right_mono) auto
    finally show ?thesis .
  qed
  have lo: "of_int n \<le> z" using ez ew xklo u by linarith
  have hi: "z < of_int n + 1" using ez ew xkhi u by linarith
  from lo hi have "\<lfloor>z\<rfloor> = n" by (simp add: floor_unique)
  moreover have "0 \<le> z" using lo nr by linarith
  ultimately show ?thesis
    by (simp add: py_int_of_float_def z_def w_def y_def x_def n_def)
qed

lemma scale_exact_5:
  "py_int_of_float (to_double (to_double (51 / 255) * 5)) = 1"
  "py_int_of_float (to_double (to_double (102 / 255) * 5)) = 2"
  "py_int_of_float (to_double (to_double (153 / 255) * 5)) = 3"
  "py_int_of_float (to_double (to_double (204 / 255) * 5)) = 4"
  by code_simp+


text \<open>Two known binary64 values: the floats \<open>1 / 3\<close> and \<open>0.1\<close>.\<close>

lemma to_double_examples:
  "to_double (1 / 3) = 6004799503160661 / 18014398509481984"
  "to_double (1 / 10) = 3602879701896397 / 36028797018963968"
  by code_simp+

lemma to_double_0: "to_double 0 = 0"
  by (simp add: to_double_def)

lemma py_truediv_floor:
  assumes "0 \<le> a" "0 < d" "a < 2 ^ 53"
  shows "py_int_of_float (py_truediv a d) = a div d"
  unfolding py_truediv_def using assms by (rule int_true_div)

lemma py_truediv_mono:
  assumes "0 \<le> a" "a \<le> b" "0 < d"
  shows "py_truediv a d \<le> py_truediv b d"
proof -
  have d: "(0::rat) < of_int d" using assms(3) by simp
  have "(of_int a :: rat) \<le> of_int b" using assms(2) by simp
  then have "(of_int a :: rat) / of_int d \<le> of_int b / of_int d"
    using d by (simp add: divide_right_mono)
  moreover have "(0::rat) \<le> of_int a / of_int d" using assms(1) d by simp
  ultimately show ?thesis unfolding py_truediv_def by (intro to_double_mono)
qed

lemma py_truediv_nonneg:
  assumes "0 \<le> a" "0 < d"
  shows "0 \<le> py_truediv a d"
  unfolding py_truediv_def using assms by (intro to_double_nonneg) simp

lemma py_int_of_float_mono:
  assumes "0 \<le> x" "x \<le> y"
  shows "py_int_of_float x \<le> py_int_of_float y"
  using assms by (simp add: py_int_of_float_def floor_mono)

lemma multiples_5:
  fixes c :: int
  assumes "0 \<le> c" "c \<le> 255" "c * 5 mod 255 = 0"
  shows "c = 0 \<or> c = 51 \<or> c = 102 \<or> c = 153 \<or> c = 204 \<or> c = 255"
proof -
  have "255 dvd c * 5" using assms(3) by (simp add: dvd_eq_mod_eq_0)
  then obtain j where "c * 5 = 255 * j" by (auto simp: dvd_def)
  then have j: "c = 51 * j" by simp
  with assms(1,2) have "0 \<le> j" "j \<le> 5" by simp_all
  then have "j = 0 \<or> j = 1 \<or> j = 2 \<or> j = 3 \<or> j = 4 \<or> j = 5" by linarith
  with j show ?thesis by auto
qed

lemma multiples_23:
  fixes c :: int
  assumes "0 \<le> c" "c \<le> 255" "c * 23 mod 255 = 0"
  shows "c = 0 \<or> c = 255"
proof -
  have cop: "coprime (255::int) 23" by code_simp
  have "255 dvd c * 23" using assms(3) by (simp add: dvd_eq_mod_eq_0)
  then have "255 dvd c" using cop by (simp add: coprime_dvd_mult_left_iff)
  then obtain j where j: "c = 255 * j" by (auto simp: dvd_def)
  with assms(1,2) have "0 \<le> j" "j \<le> 1" by simp_all
  then have "j = 0 \<or> j = 1" by linarith
  with j show ?thesis by auto
qed

lemma scale255_eq:
  assumes c: "0 \<le> c" "c \<le> 255" and k: "k = 5 \<or> k = 23"
  shows "scale255 c k = c * k div 255"
proof (cases "c * k mod 255 = 0")
  case False
  from k have "1 \<le> k" "k \<le> 23" by auto
  from scale_inexact [OF c this False] show ?thesis
    by (simp add: scale255_def py_fmul_def py_truediv_def)
next
  case True
  have one: "to_double 1 = 1" using to_double_of_int [of 1] by simp
  have kk: "to_double (of_int k) = of_int k" using k by (intro to_double_of_int) auto
  have k0: "0 \<le> k" using k by auto
  have "c = 0 \<or> c = 255 \<or> (k = 5 \<and> (c = 51 \<or> c = 102 \<or> c = 153 \<or> c = 204))"
  proof (cases "k = 5")
    case True
    with \<open>c * k mod 255 = 0\<close> have "c * 5 mod 255 = 0" by simp
    from multiples_5 [OF c this] True show ?thesis by auto
  next
    case False
    with k have "k = 23" by simp
    with \<open>c * k mod 255 = 0\<close> have "c * 23 mod 255 = 0" by simp
    from multiples_23 [OF c this] show ?thesis by auto
  qed
  then show ?thesis
  proof (elim disjE conjE)
    assume "c = 0"
    then show ?thesis
      by (simp add: scale255_def py_fmul_def py_truediv_def to_double_0 py_int_of_float_def)
  next
    assume "c = 255"
    then show ?thesis using k0
      by (simp add: scale255_def py_fmul_def py_truediv_def one kk py_int_of_float_def)
  next
    assume "k = 5" "c = 51"
    then show ?thesis using scale_exact_5(1)
      by (simp add: scale255_def py_fmul_def py_truediv_def)
  next
    assume "k = 5" "c = 102"
    then show ?thesis using scale_exact_5(2)
      by (simp add: scale255_def py_fmul_def py_truediv_def)
  next
    assume "k = 5" "c = 153"
    then show ?thesis using scale_exact_5(3)
      by (simp add: scale255_def py_fmul_def py_truediv_def)
  next
    assume "k = 5" "c = 204"
    then show ?thesis using scale_exact_5(4)
      by (simp add: scale255_def py_fmul_def py_truediv_def)
  qed
qed

section \<open>Properties of the glyph quantizer\<close>

lemma char_index_eq:
  assumes n: "1 \<le> n" "n \<le> 2 ^ 40"
  shows "char_index n b = max 0 (min 255 b) * (n - 1) div 255"
proof -
  define br where "br = max 0 (min 255 b)"
  have br: "0 \<le> br" "br \<le> 255" by (simp_all add: br_def)
  define a where "a = br * (n - 1)"
  have a0: "0 \<le> a" using br n by (simp add: a_def)
  have "a \<le> 255 * (n - 1)" unfolding a_def using br n by (intro mult_right_mono) auto
  then have ale: "a \<le> 255 * (n - 1)" .
  have "255 * (n - 1) < 2 ^ 53" using n by simp
  with ale have a53: "a < 2 ^ 53" by linarith
  have idx: "py_int_of_float (py_truediv a 255) = a div 255"
    using a0 a53 by (intro py_truediv_floor) auto
  have "0 \<le> a div 255" using a0 by (simp add: pos_imp_zdiv_nonneg_iff)
  moreover have "a div 255 \<le> n - 1"
    using zdiv_mono1 [OF ale, of 255] by simp
  ultimately show ?thesis
    by (simp add: char_index_def Let_def idx flip: br_def a_def)
qed

lemma char_index_range:
  assumes "1 \<le> n"
  shows "0 \<le> char_index n b" and "char_index n b \<le> n - 1"
  using assms by (simp_all add: char_index_def Let_def)

lemma char_index_mono:
  assumes n: "1 \<le> n" and b: "b \<le> b'"
  shows "char_index n b \<le> char_index n b'"
proof -
  define x where "x = max 0 (min 255 b) * (n - 1)"
  define y where "y = max 0 (min 255 b') * (n - 1)"
  have "max 0 (min 255 b) \<le> max 0 (min 255 b')" using b by simp
  then have xy: "x \<le> y" unfolding x_def y_def using n by (intro mult_right_mono) auto
  have x0: "0 \<le> x" using n by (simp add: x_def)
  have "py_truediv x 255 \<le> py_truediv y 255" using x0 xy by (intro py_truediv_mono) auto
  moreover have "0 \<le> py_truediv x 255" using x0 by (intro py_truediv_nonneg) auto
  ultimately have "py_int_of_float (py_truediv x 255) \<le> py_int_of_float (py_truediv y 255)"
    by (intro py_int_of_float_mono)
  then show ?thesis
    by (simp add: char_index_def Let_def flip: x_def y_def)
qed

lemma length_ascii_chars:
  "length (ascii_chars q) = (if q = Medium \<or> q = Other then 10 else 9)"
  by (cases q) (simp_all add: ascii_chars_def ascii_sets_def u_def)

lemma glyph_in_range:
  assumes "chars \<noteq> []"
  shows "glyph chars b = Inr (chars ! nat (char_index (int (length chars)) b))"
proof -
  have n: "1 \<le> int (length chars)" using assms by (cases chars) auto
  note r = char_index_range [OF n, of b]
  then show ?thesis by (simp add: glyph_def py_index_def Let_def)
qed

text \<open>
  C1. The glyph quantizer clamps the brightness to 0..255 and returns
  \<open>floor (brightness * (N - 1) / 255)\<close>, clamped to 0..N-1, for every alphabet size \<open>N\<close>
  from 1 up to \<open>2 ^ 40\<close>, so for the four configured alphabets (9 or 10 glyphs), whose
  lookup never leaves the alphabet; brightness 0 gives index 0 and brightness 255 gives index
  \<open>N - 1\<close>, for the ten-glyph alphabet the glyphs \<open>@\<close> and space.
\<close>

theorem char_index_formula:
  assumes "1 \<le> n" and "n \<le> 2 ^ 40"
  shows "char_index n b = max 0 (min (n - 1) (max 0 (min 255 b) * (n - 1) div 255))
       \<and> char_index n b = max 0 (min 255 b) * (n - 1) div 255
       \<and> char_index n 0 = 0
       \<and> char_index n 255 = n - 1
       \<and> (int (length (ascii_chars q)) = 9 \<or> int (length (ascii_chars q)) = 10)
       \<and> glyph (ascii_chars q) b =
           Inr (ascii_chars q ! nat (max 0 (min 255 b) * (int (length (ascii_chars q)) - 1) div 255))
       \<and> glyph (u ''@%#*+=-:. '') 0 = Inr (of_char CHR ''@'')
       \<and> glyph (u ''@%#*+=-:. '') 255 = Inr (of_char CHR '' '')"
proof -
  note eq = char_index_eq [OF assms]
  have r: "0 \<le> char_index n b" "char_index n b \<le> n - 1"
    using char_index_range [OF assms(1)] by auto
  have 1: "char_index n b = max 0 (min (n - 1) (max 0 (min 255 b) * (n - 1) div 255))"
    using r by (simp add: eq)
  have 3: "char_index n 0 = 0" by (simp add: eq)
  have 4: "char_index n 255 = n - 1" by (simp add: eq)
  have len: "int (length (ascii_chars q)) = 9 \<or> int (length (ascii_chars q)) = 10"
    by (simp add: length_ascii_chars)
  have ne: "ascii_chars q \<noteq> []" using len by auto
  have "1 \<le> int (length (ascii_chars q))" "int (length (ascii_chars q)) \<le> 2 ^ 40"
    using len by auto
  from char_index_eq [OF this]
  have 6: "glyph (ascii_chars q) b =
      Inr (ascii_chars q ! nat (max 0 (min 255 b) * (int (length (ascii_chars q)) - 1) div 255))"
    by (simp add: glyph_in_range [OF ne])
  have ten: "u ''@%#*+=-:. '' = [64, 37, 35, 42, 43, 61, 45, 58, 46, 32]"
    by (simp add: u_def)
  have i0: "char_index 10 0 = 0" and i255: "char_index 10 255 = 9"
    using char_index_eq [of 10] by simp_all
  have 7: "glyph (u ''@%#*+=-:. '') 0 = Inr (of_char CHR ''@'')"
    by (simp add: glyph_def ten i0 py_index_def)
  have 8: "glyph (u ''@%#*+=-:. '') 255 = Inr (of_char CHR '' '')"
    by (simp add: glyph_def ten i255 py_index_def)
  from 1 eq 3 4 len 6 7 8 show ?thesis by blast
qed

theorem char_index_formula_witness:
  "(1::int) \<le> 10 \<and> (10::int) \<le> 2 ^ 40 \<and> char_index 10 128 = 4
   \<and> glyph (ascii_chars Medium) 128 = Inr (of_char CHR ''+'')"
proof -
  have h: "(1::int) \<le> 10" "(10::int) \<le> 2 ^ 40" by simp_all
  from char_index_formula [OF h, of 128 Medium] show ?thesis
    by (simp add: length_ascii_chars ascii_chars_def ascii_sets_def u_def)
qed

text \<open>
  C2. For brightness values \<open>b \<le> b'\<close> in 0..255 and every alphabet size \<open>N \<ge> 2\<close>, the
  index of \<open>b\<close> is at most the index of \<open>b'\<close>, and every index lies in 0..N-1.
\<close>

theorem char_index_monotone:
  assumes "2 \<le> n" and "0 \<le> b" and "b \<le> b'" and "b' \<le> 255"
  shows "char_index n b \<le> char_index n b' \<and> 0 \<le> char_index n b \<and> char_index n b \<le> n - 1"
proof -
  have n: "1 \<le> n" using assms(1) by simp
  from char_index_mono [OF n assms(3)] char_index_range [OF n, of b] show ?thesis by simp
qed

theorem char_index_monotone_witness:
  "(2::int) \<le> 10 \<and> (0::int) \<le> 100 \<and> (100::int) \<le> 200 \<and> (200::int) \<le> 255
   \<and> char_index 10 100 \<le> char_index 10 200 \<and> 0 \<le> char_index 10 100 \<and> char_index 10 100 \<le> 9"
proof -
  have h: "(2::int) \<le> 10" "(0::int) \<le> 100" "(100::int) \<le> 200" "(200::int) \<le> 255"
    by simp_all
  from char_index_monotone [OF h] show ?thesis by simp
qed

section \<open>Properties of the string functions\<close>

lemma split_on_notin: "c \<notin> set xs \<Longrightarrow> split_on c xs = [xs]"
  by (induction xs) auto

lemma split_on_append: "c \<notin> set xs \<Longrightarrow> split_on c (xs @ c # ys) = xs # split_on c ys"
  by (induction xs) auto

lemma split_on_not_Nil: "split_on c xs \<noteq> []"
  by (induction xs) (auto split: list.splits)

lemma digits_of_digits: "x \<in> set (digits_of n) \<Longrightarrow> is_digit x"
proof (induction n arbitrary: x rule: digits_of.induct)
  case (1 n)
  show ?case
  proof (cases "n < 10")
    case True
    with "1.prems" show ?thesis by (simp add: digits_of.simps [of n] is_digit_def)
  next
    case False
    have "n mod 10 < 10" by simp
    then have "is_digit (48 + n mod 10)" unfolding is_digit_def by linarith
    with False "1.prems" "1.IH" show ?thesis
      by (auto simp: digits_of.simps [of n])
  qed
qed

lemma digits_of_not_Nil: "digits_of n \<noteq> []"
  by (subst digits_of.simps) simp

lemma digits_of_value: "foldl (\<lambda>a c. a * 10 + (c - 48)) 0 (digits_of n) = n"
proof (induction n rule: digits_of.induct)
  case (1 n)
  show ?case
  proof (cases "n < 10")
    case True
    then show ?thesis by (simp add: digits_of.simps [of n])
  next
    case False
    with "1.IH" show ?thesis by (simp add: digits_of.simps [of n])
  qed
qed

lemma parse_dec_digits:
  "(\<And>x. x \<in> set ds \<Longrightarrow> is_digit x) \<Longrightarrow>
   parse_dec acc ds = Some (foldl (\<lambda>a c. a * 10 + (c - 48)) acc ds)"
  by (induction acc ds rule: parse_dec.induct) auto

lemma parse_unsigned_digits:
  assumes "ds \<noteq> []" and "\<And>x. x \<in> set ds \<Longrightarrow> is_digit x"
  shows "parse_unsigned ds = Some (foldl (\<lambda>a c. a * 10 + (c - 48)) 0 ds)"
proof (cases ds)
  case Nil
  with assms(1) show ?thesis by simp
next
  case (Cons c cs)
  with assms(2) have "is_digit c" and "\<And>x. x \<in> set cs \<Longrightarrow> is_digit x" by auto
  then show ?thesis by (simp add: parse_unsigned_def Cons parse_dec_digits)
qed

lemma is_digit_not_space: "is_digit c \<Longrightarrow> \<not> py_isspace c"
  by (auto simp: is_digit_def py_isspace_def)

lemma dropWhile_none: "(\<And>x. x \<in> set xs \<Longrightarrow> \<not> P x) \<Longrightarrow> dropWhile P xs = xs"
  by (cases xs) auto

lemma py_strip_id:
  assumes "\<And>x. x \<in> set s \<Longrightarrow> \<not> py_isspace x"
  shows "py_strip s = s"
proof -
  have "dropWhile py_isspace s = s" using assms by (rule dropWhile_none)
  moreover have "dropWhile py_isspace (rev s) = rev s"
    using assms by (intro dropWhile_none) simp
  ultimately show ?thesis by (simp add: py_strip_def)
qed

lemma rstrip_char_snoc:
  assumes "c \<notin> set s"
  shows "rstrip_char c (s @ [c]) = s"
proof -
  have "dropWhile (\<lambda>x. x = c) (rev s) = rev s"
    using assms by (intro dropWhile_none) auto
  then show ?thesis by (simp add: rstrip_char_def)
qed

lemma py_int_of_str_digits: "py_int_of_str (digits_of n) = Some (int n)"
proof -
  obtain c cs where cs: "digits_of n = c # cs"
    using digits_of_not_Nil [of n] by (cases "digits_of n") auto
  have d: "\<And>x. x \<in> set (digits_of n) \<Longrightarrow> is_digit x" by (rule digits_of_digits)
  have strip: "py_strip (digits_of n) = digits_of n"
    by (intro py_strip_id is_digit_not_space d)
  have "is_digit c" using d [of c] cs by simp
  then have c: "c \<noteq> 45" "c \<noteq> 43" by (auto simp: is_digit_def)
  have "parse_unsigned (digits_of n) = Some n"
    using parse_unsigned_digits [OF digits_of_not_Nil d] by (simp add: digits_of_value)
  then show ?thesis using c
    by (simp add: py_int_of_str_def strip) (simp add: cs)
qed

lemma ansi256_fields:
  assumes "0 \<le> n"
  shows "split_on 59 (ansi256 n) = [[27, 91, 51, 56], [53], digits_of (nat n) @ [109]]"
proof -
  have d: "\<And>x. x \<in> set (digits_of (nat n)) \<Longrightarrow> is_digit x" by (rule digits_of_digits)
  have "59 \<notin> set (digits_of (nat n) @ [109])"
    using d [of 59] by (auto simp: is_digit_def)
  from split_on_notin [OF this]
  have 1: "split_on 59 (digits_of (nat n) @ [109]) = [digits_of (nat n) @ [109]]" .
  have "ansi256 n = [27, 91, 51, 56] @ 59 # ([53] @ 59 # (digits_of (nat n) @ [109]))"
    using assms by (simp add: ansi256_def u_def str_of_int_def)
  then show ?thesis by (simp add: 1 split_on_append del: append.simps split_on.simps)
qed

lemma ansi256_number:
  assumes "0 \<le> n"
  shows "py_int_of_str (rstrip_char 109 (digits_of (nat n) @ [109])) = Some n"
proof -
  have "109 \<notin> set (digits_of (nat n))"
    using digits_of_digits [of 109 "nat n"] by (auto simp: is_digit_def)
  then show ?thesis using assms by (simp add: rstrip_char_snoc py_int_of_str_digits)
qed

lemma get_rgb_from_ansi_ansi256:
  assumes "0 \<le> n"
  shows "get_rgb_from_ansi (ansi256 n) =
    Inr (if 232 \<le> n \<and> n \<le> 255 then
           ((n - 232) * 255 div 23, (n - 232) * 255 div 23, (n - 232) * 255 div 23)
         else if 16 \<le> n \<and> n \<le> 231 then
           (((n - 16) div 36) * 51, (((n - 16) mod 36) div 6) * 51, ((n - 16) mod 6) * 51)
         else if n < 16 then basic_colors ! nat n
         else white)"
proof -
  have start: "ansi256 n \<noteq> []" "startswith (ansi256 n) (27 # u ''[38;5;'')"
    by (simp_all add: ansi256_def startswith_def u_def)
  have field: "py_index (split_on 59 (ansi256 n)) 2 = Inr (digits_of (nat n) @ [109])"
    by (simp add: ansi256_fields [OF assms] py_index_def)
  have basic: "py_index basic_colors n = Inr (basic_colors ! nat n)" if "n < 16"
    using that assms by (simp add: py_index_def basic_colors_def)
  have len: "int (length basic_colors) = 16" by (simp add: basic_colors_def)
  show ?thesis
    unfolding get_rgb_from_ansi_def get_rgb_from_ansi_with_def get_rgb_try_def
    using start assms
    by (auto simp: field ansi256_number [OF assms] py_truediv_floor basic len Let_def)
qed

section \<open>Properties of the colour quantizer\<close>

lemma level_range:
  fixes r :: int
  assumes "0 \<le> r" "r \<le> 255"
  shows "0 \<le> r * 5 div 255" "r * 5 div 255 \<le> 5"
  using assms by linarith+

lemma cube_digits:
  fixes R G B :: int
  assumes "0 \<le> R" "R \<le> 5" "0 \<le> G" "G \<le> 5" "0 \<le> B" "B \<le> 5"
  shows "(36 * R + 6 * G + B) div 36 = R"
    and "((36 * R + 6 * G + B) mod 36) div 6 = G"
    and "(36 * R + 6 * G + B) mod 6 = B"
proof -
  show "(36 * R + 6 * G + B) div 36 = R" using assms by linarith
  have "(36 * R + 6 * G + B) mod 36 = (6 * G + B + R * 36) mod 36" by (simp add: algebra_simps)
  also have "\<dots> = (6 * G + B) mod 36" by (simp only: mod_mult_self1)
  also have "\<dots> = 6 * G + B" using assms by simp
  finally have m: "(36 * R + 6 * G + B) mod 36 = 6 * G + B" .
  show "((36 * R + 6 * G + B) mod 36) div 6 = G" unfolding m using assms by linarith
  have "(36 * R + 6 * G + B) mod 6 = (B + (6 * R + G) * 6) mod 6" by (simp add: algebra_simps)
  also have "\<dots> = B mod 6" by (simp only: mod_mult_self1)
  also have "\<dots> = B" using assms by simp
  finally show "(36 * R + 6 * G + B) mod 6 = B" .
qed

lemma gray_error:
  fixes r :: int
  assumes "0 \<le> r" "r \<le> 255"
  shows "0 \<le> r - (r * 23 div 255) * 255 div 23" "r - (r * 23 div 255) * 255 div 23 \<le> 12"
  using assms by linarith+

lemma same_bucket:
  fixes L :: int
  assumes "0 \<le> L" "L \<le> 5"
  shows "(51 * L) * 5 div 255 = L"
  using assms by linarith

text \<open>
  C3, amended. For every \<open>r = g = b\<close> in 0..255 the 256-colour forward mapping returns code 16
  when \<open>r < 8\<close>, code 231 when \<open>r > 248\<close>, and otherwise the grayscale code
  \<open>232 + floor (23 * r / 255)\<close>, which lies in 232..254; the inverse mapping sends that code
  to a gray triple whose components differ from \<open>r\<close> by at most 12.
\<close>

theorem gray_roundtrip:
  assumes "0 \<le> r" and "r \<le> 255"
  shows "get_color_code True r r r =
           ansi256 (if r < 8 then 16 else if 248 < r then 231 else 232 + r * 23 div 255)
       \<and> (8 \<le> r \<and> r \<le> 248 \<longrightarrow> 232 \<le> 232 + r * 23 div 255 \<and> 232 + r * 23 div 255 \<le> 254)
       \<and> (\<exists>v. get_rgb_from_ansi (get_color_code True r r r) = Inr (v, v, v) \<and> \<bar>v - r\<bar> \<le> 12)"
proof -
  have s23: "scale255 r 23 = r * 23 div 255" using assms by (intro scale255_eq) auto
  have fwd: "get_color_code True r r r =
      ansi256 (if r < 8 then 16 else if 248 < r then 231 else 232 + r * 23 div 255)"
    by (simp add: get_color_code_def s23 Let_def)
  have band: "8 \<le> r \<and> r \<le> 248 \<longrightarrow> 232 \<le> 232 + r * 23 div 255 \<and> 232 + r * 23 div 255 \<le> 254"
    by linarith
  have inv: "\<exists>v. get_rgb_from_ansi (get_color_code True r r r) = Inr (v, v, v) \<and> \<bar>v - r\<bar> \<le> 12"
  proof -
    consider "r < 8" | "248 < r" | "8 \<le> r" "r \<le> 248" by linarith
    then show ?thesis
    proof cases
      case 1
      then have "get_rgb_from_ansi (get_color_code True r r r) = Inr (0, 0, 0)"
        by (simp add: fwd get_rgb_from_ansi_ansi256)
      moreover have "\<bar>0 - r\<bar> \<le> 12" using 1 assms by simp
      ultimately show ?thesis by blast
    next
      case 2
      then have "get_rgb_from_ansi (get_color_code True r r r) = Inr (255, 255, 255)"
        by (simp add: fwd get_rgb_from_ansi_ansi256)
      moreover have "\<bar>255 - r\<bar> \<le> 12" using 2 assms by simp
      ultimately show ?thesis by blast
    next
      case 3
      define k where "k = r * 23 div 255"
      have k: "0 \<le> k" "k \<le> 22" using 3 unfolding k_def by linarith+
      have code: "get_color_code True r r r = ansi256 (232 + k)"
        using 3 by (simp add: fwd k_def)
      have "get_rgb_from_ansi (ansi256 (232 + k)) =
          Inr (k * 255 div 23, k * 255 div 23, k * 255 div 23)"
        using k by (simp add: get_rgb_from_ansi_ansi256)
      moreover have "\<bar>k * 255 div 23 - r\<bar> \<le> 12"
        using gray_error [OF assms] by (simp add: k_def)
      ultimately show ?thesis unfolding code by blast
    qed
  qed
  from fwd band inv show ?thesis by blast
qed

theorem gray_roundtrip_witness:
  "(0::int) \<le> 100 \<and> (100::int) \<le> 255
   \<and> get_color_code True 100 100 100 = ansi256 241
   \<and> (\<exists>v. get_rgb_from_ansi (get_color_code True 100 100 100) = Inr (v, v, v) \<and> \<bar>v - 100\<bar> \<le> 12)"
proof -
  have h: "(0::int) \<le> 100" "(100::int) \<le> 255" by simp_all
  note t = gray_roundtrip [OF h]
  from t have a: "get_color_code True 100 100 100 = ansi256 241" by simp
  from t have b: "\<exists>v. get_rgb_from_ansi (get_color_code True 100 100 100) = Inr (v, v, v)
      \<and> \<bar>v - 100\<bar> \<le> 12" by blast
  from h a b show ?thesis by blast
qed

theorem gray_roundtrip_counterexample:
  "get_rgb_from_ansi (get_color_code True 133 133 133) = Inr (121, 121, 121)
   \<and> \<not> \<bar>(121::int) - 133\<bar> \<le> 11
   \<and> get_color_code True 0 0 0 = ansi256 16
   \<and> \<not> (232 \<le> (16::int) \<and> (16::int) \<le> 255)"
proof -
  have "scale255 133 23 = 133 * 23 div 255" by (intro scale255_eq) auto
  then have "get_color_code True 133 133 133 = ansi256 243"
    by (simp add: get_color_code_def Let_def)
  moreover have "get_rgb_from_ansi (ansi256 243) = Inr (121, 121, 121)"
    by (simp add: get_rgb_from_ansi_ansi256)
  moreover have "get_color_code True 0 0 0 = ansi256 16"
    by (simp add: get_color_code_def)
  ultimately show ?thesis by simp
qed

text \<open>
  C4. For channels in 0..255 that are not all equal, the 256-colour forward mapping returns the
  cube code \<open>16 + 36 * R + 6 * G + B\<close> with the levels \<open>floor (channel * 5 / 255)\<close>, each in
  0..5; the inverse mapping returns 51 times each level, a colour whose levels are those of the
  input; and for every cube code \<open>c\<close> in 16..231 the inverse mapping returns
  \<open>((c - 16) div 36) * 51\<close>, \<open>(((c - 16) mod 36) div 6) * 51\<close> and \<open>((c - 16) mod 6) * 51\<close>.
\<close>

theorem cube_code:
  assumes "0 \<le> r" "r \<le> 255" "0 \<le> g" "g \<le> 255" "0 \<le> b" "b \<le> 255"
    and "\<not> (r = g \<and> g = b)" and "16 \<le> c" "c \<le> 231"
  shows "get_color_code True r g b =
           ansi256 (16 + 36 * (r * 5 div 255) + 6 * (g * 5 div 255) + b * 5 div 255)
       \<and> 0 \<le> r * 5 div 255 \<and> r * 5 div 255 \<le> 5
       \<and> 0 \<le> g * 5 div 255 \<and> g * 5 div 255 \<le> 5
       \<and> 0 \<le> b * 5 div 255 \<and> b * 5 div 255 \<le> 5
       \<and> get_rgb_from_ansi (get_color_code True r g b) =
           Inr (51 * (r * 5 div 255), 51 * (g * 5 div 255), 51 * (b * 5 div 255))
       \<and> 51 * (r * 5 div 255) * 5 div 255 = r * 5 div 255
       \<and> 51 * (g * 5 div 255) * 5 div 255 = g * 5 div 255
       \<and> 51 * (b * 5 div 255) * 5 div 255 = b * 5 div 255
       \<and> get_rgb_from_ansi (ansi256 c) =
           Inr (((c - 16) div 36) * 51, (((c - 16) mod 36) div 6) * 51, ((c - 16) mod 6) * 51)"
proof -
  define R where "R = r * 5 div 255"
  define G where "G = g * 5 div 255"
  define B where "B = b * 5 div 255"
  have R: "0 \<le> R" "R \<le> 5" using level_range [of r] assms by (simp_all add: R_def)
  have G: "0 \<le> G" "G \<le> 5" using level_range [of g] assms by (simp_all add: G_def)
  have B: "0 \<le> B" "B \<le> 5" using level_range [of b] assms by (simp_all add: B_def)
  have s: "scale255 r 5 = R" "scale255 g 5 = G" "scale255 b 5 = B"
    using assms by (simp_all add: scale255_eq R_def G_def B_def)
  have fwd: "get_color_code True r g b = ansi256 (16 + 36 * R + 6 * G + B)"
    using assms(7) by (auto simp: get_color_code_def s Let_def)
  define code where "code = 16 + 36 * R + 6 * G + B"
  have code: "16 \<le> code" "code \<le> 231" using R G B by (simp_all add: code_def)
  have c16: "code - 16 = 36 * R + 6 * G + B" by (simp add: code_def)
  note dg = cube_digits [OF R G B]
  have "get_rgb_from_ansi (ansi256 code) =
      Inr (((code - 16) div 36) * 51, (((code - 16) mod 36) div 6) * 51, ((code - 16) mod 6) * 51)"
    using code by (simp add: get_rgb_from_ansi_ansi256)
  then have inv: "get_rgb_from_ansi (get_color_code True r g b) = Inr (51 * R, 51 * G, 51 * B)"
    unfolding fwd code_def [symmetric] c16 dg by simp
  have bucket: "51 * R * 5 div 255 = R" "51 * G * 5 div 255 = G" "51 * B * 5 div 255 = B"
    using same_bucket R G B by simp_all
  have any: "get_rgb_from_ansi (ansi256 c) =
      Inr (((c - 16) div 36) * 51, (((c - 16) mod 36) div 6) * 51, ((c - 16) mod 6) * 51)"
    using assms(8,9) by (simp add: get_rgb_from_ansi_ansi256)
  from fwd R G B inv bucket any show ?thesis
    unfolding R_def G_def B_def by blast
qed

theorem cube_code_witness:
  "get_color_code True 200 50 50 = ansi256 124
   \<and> get_rgb_from_ansi (get_color_code True 200 50 50) = Inr (153, 0, 0)
   \<and> get_rgb_from_ansi (ansi256 196) = Inr (255, 0, 0)"
proof -
  have h: "(0::int) \<le> 200" "(200::int) \<le> 255" "(0::int) \<le> 50" "(50::int) \<le> 255"
    "\<not> ((200::int) = 50 \<and> (50::int) = 50)" "(16::int) \<le> 196" "(196::int) \<le> 231"
    by simp_all
  note t = cube_code [OF h(1,2,3,4,3,4,5,6,7)]
  from t have a: "get_color_code True 200 50 50 = ansi256 124" by simp
  from t have "get_rgb_from_ansi (get_color_code True 200 50 50) =
      Inr (51 * (200 * 5 div 255), 51 * (50 * 5 div 255), 51 * (50 * 5 div 255))" by blast
  then have b: "get_rgb_from_ansi (get_color_code True 200 50 50) = Inr (153, 0, 0)" by simp
  from t have c: "get_rgb_from_ansi (ansi256 196) = Inr (255, 0, 0)" by simp
  from a b c show ?thesis by blast
qed

text \<open>
  C5. The 16-colour classification of \<open>ascii_video_with_audio.py\<close> tests grayscale first,
  then a single dominant channel (red, green, blue, in that order), then two channels above
  128 (yellow, magenta, cyan, in that order), and otherwise returns the light-gray code;
  (200, 50, 50) is classified red, and the inverse mapping sends its code to (255, 0, 0).
\<close>

theorem reliable_color_precedence:
  "(r = g \<and> g = b \<longrightarrow>
      reliable_get_color_code r g b =
        (if r < 64 then 27 # u ''[30m'' else if r < 128 then 27 # u ''[90m''
         else if r < 192 then 27 # u ''[37m'' else 27 # u ''[97m''))
   \<and> (\<not> (r = g \<and> g = b) \<and> r > g \<and> r > b \<longrightarrow>
        reliable_get_color_code r g b = 27 # u ''[91m'')
   \<and> (\<not> (r = g \<and> g = b) \<and> \<not> (r > g \<and> r > b) \<and> g > r \<and> g > b \<longrightarrow>
        reliable_get_color_code r g b = 27 # u ''[92m'')
   \<and> (\<not> (r = g \<and> g = b) \<and> \<not> (r > g \<and> r > b) \<and> \<not> (g > r \<and> g > b) \<and> b > r \<and> b > g \<longrightarrow>
        reliable_get_color_code r g b = 27 # u ''[94m'')
   \<and> (\<not> (r = g \<and> g = b) \<and> \<not> (r > g \<and> r > b) \<and> \<not> (g > r \<and> g > b) \<and> \<not> (b > r \<and> b > g) \<longrightarrow>
        reliable_get_color_code r g b =
          (if r > 128 \<and> g > 128 then 27 # u ''[93m''
           else if r > 128 \<and> b > 128 then 27 # u ''[95m''
           else if g > 128 \<and> b > 128 then 27 # u ''[96m''
           else 27 # u ''[37m''))
   \<and> reliable_get_color_code 200 50 50 = 27 # u ''[91m''
   \<and> ansi_to_rgb (reliable_get_color_code 200 50 50) = (255, 0, 0)
   \<and> ansi_to_rgb (27 # u ''[37m'') = (192, 192, 192)"
  by (simp add: reliable_get_color_code_def ansi_to_rgb_def color_map_def u_def)

theorem reliable_color_precedence_witness:
  "reliable_get_color_code 200 200 50 = 27 # u ''[93m''
   \<and> reliable_get_color_code 100 100 50 = 27 # u ''[37m''
   \<and> reliable_get_color_code 200 200 200 = 27 # u ''[97m''
   \<and> reliable_get_color_code 50 60 200 = 27 # u ''[94m''"
  using reliable_color_precedence [of 200 200 50] reliable_color_precedence [of 100 100 50]
    reliable_color_precedence [of 200 200 200] reliable_color_precedence [of 50 60 200]
  by simp

lemma get_rgb_try_errors:
  "get_rgb_try p code = Inl e \<Longrightarrow> e = ValueError \<or> e = IndexError"
  by (auto simp: get_rgb_try_def py_index_def Let_def
      split: sum.splits option.splits if_splits)

lemma get_rgb_try_returns:
  assumes "get_rgb_try p code = Inr (Some c)"
  shows "\<exists>field n. py_index (split_on 59 code) 2 = Inr field
           \<and> p (rstrip_char 109 field) = Some n \<and> 0 \<le> n \<and> n \<le> 255"
proof -
  obtain field where f: "py_index (split_on 59 code) 2 = Inr field"
    using assms by (cases "py_index (split_on 59 code) 2") (auto simp: get_rgb_try_def)
  obtain n where n: "p (rstrip_char 109 field) = Some n"
    using assms f by (cases "p (rstrip_char 109 field)") (auto simp: get_rgb_try_def)
  have "0 \<le> n \<and> n \<le> 255"
    using assms f n
    by (auto simp: get_rgb_try_def Let_def basic_colors_def split: if_splits)
  with f n show ?thesis by blast
qed

text \<open>
  C6. The inverse mappings never raise: \<open>get_rgb_from_ansi\<close> returns a colour for every
  string, whatever \<open>int\<close> makes of the number field, and returns white for every string that
  does not name a colour of the 256-colour palette; \<open>ansi_to_rgb\<close> returns white for every
  string that is not a key of its table.
\<close>

theorem inverse_mapping_total:
  "(\<exists>c. get_rgb_from_ansi_with parse code = Inr c)
   \<and> (\<not> palette_code_256 parse code \<longrightarrow> get_rgb_from_ansi_with parse code = Inr white)
   \<and> (\<exists>c. get_rgb_from_ansi code = Inr c)
   \<and> (\<not> palette_code_256 py_int_of_str code \<longrightarrow> get_rgb_from_ansi code = Inr white)
   \<and> (map_of color_map code = None \<longrightarrow> ansi_to_rgb code = white)"
proof -
  have total: "\<exists>c. get_rgb_from_ansi_with p code = Inr c" for p
  proof (cases "get_rgb_try p code")
    case (Inl e)
    with get_rgb_try_errors [of p code e]
    have "get_rgb_from_ansi_with p code = Inr white"
      by (auto simp: get_rgb_from_ansi_with_def)
    then show ?thesis by blast
  next
    case (Inr x)
    then have "get_rgb_from_ansi_with p code = Inr white
        \<or> get_rgb_from_ansi_with p code = Inr (the x)"
      by (cases x) (simp_all add: get_rgb_from_ansi_with_def)
    then show ?thesis by blast
  qed
  have soft: "get_rgb_from_ansi_with p code = Inr white" if "\<not> palette_code_256 p code" for p
  proof (cases "startswith code (27 # u ''[38;5;'')")
    case False
    then show ?thesis by (simp add: get_rgb_from_ansi_with_def)
  next
    case True
    show ?thesis
    proof (cases "get_rgb_try p code")
      case (Inl e)
      with get_rgb_try_errors [of p code e] show ?thesis
        by (auto simp: get_rgb_from_ansi_with_def)
    next
      case (Inr x)
      show ?thesis
      proof (cases x)
        case None
        with Inr show ?thesis by (simp add: get_rgb_from_ansi_with_def)
      next
        case (Some c)
        with Inr have "get_rgb_try p code = Inr (Some c)" by simp
        from get_rgb_try_returns [OF this] True have "palette_code_256 p code"
          by (auto simp: palette_code_256_def)
        with that show ?thesis by simp
      qed
    qed
  qed
  have map: "map_of color_map code = None \<longrightarrow> ansi_to_rgb code = white"
    by (simp add: ansi_to_rgb_def)
  from total [of parse] soft [of parse] total [of py_int_of_str] soft [of py_int_of_str] map
  show ?thesis unfolding get_rgb_from_ansi_def by blast
qed

theorem inverse_mapping_total_witness:
  "\<not> palette_code_256 py_int_of_str (27 # u ''[38;5;300m'')
   \<and> get_rgb_from_ansi (27 # u ''[38;5;300m'') = Inr white
   \<and> map_of color_map (u ''[31m'') = None
   \<and> ansi_to_rgb (u ''[31m'') = white"
proof -
  have a: "\<not> palette_code_256 py_int_of_str (27 # u ''[38;5;300m'')" by code_simp
  have b: "map_of color_map (u ''[31m'') = None" by code_simp
  from inverse_mapping_total [of py_int_of_str "27 # u ''[38;5;300m''"] a
  have c: "get_rgb_from_ansi (27 # u ''[38;5;300m'') = Inr white" by blast
  from inverse_mapping_total [of py_int_of_str "u ''[31m''"] b
  have d: "ansi_to_rgb (u ''[31m'') = white" by blast
  from a b c d show ?thesis by blast
qed

section \<open>Properties of the row count\<close>

lemma py_fmul_nonneg: "0 \<le> x \<Longrightarrow> 0 \<le> y \<Longrightarrow> 0 \<le> py_fmul x y"
  unfolding py_fmul_def by (intro to_double_nonneg) simp

lemma ratio_values:
  "to_double (45 / 100) = 8106479329266893 / 18014398509481984"
  "to_double (55 / 100) = 2476979795053773 / 4503599627370496"
  "to_double (5 / 10) = 1 / 2"
  by code_simp+

lemma char_aspect_ratio_near:
  "\<bar>char_aspect_ratio q - (if q = High then 45 / 100 else 55 / 100)\<bar> \<le> 1 / 10 ^ 16"
  by (simp only: char_aspect_ratio_def ratio_values) simp

lemma char_aspect_ratio_nonneg: "0 \<le> char_aspect_ratio q"
  by (simp only: char_aspect_ratio_def ratio_values) simp

lemma round_half_even_floor:
  "round_half_even x = \<lfloor>x\<rfloor> \<or> round_half_even x = \<lfloor>x\<rfloor> + 1"
  by (simp add: round_half_even_def Let_def)

lemma new_height_floor:
  assumes "0 \<le> c" "0 \<le> width" "0 \<le> height" "0 < original_width"
  defines "p \<equiv> py_fmul (py_fmul (of_int width) (py_truediv height original_width)) c"
  shows "new_height c width height original_width = Inr \<lfloor>p\<rfloor>" and "0 \<le> p"
proof -
  have a: "0 \<le> py_truediv height original_width"
    using assms(3,4) by (rule py_truediv_nonneg)
  have w: "(0::rat) \<le> of_int width" using assms(2) by simp
  have b: "0 \<le> py_fmul (of_int width) (py_truediv height original_width)"
    using w a by (rule py_fmul_nonneg)
  show p: "0 \<le> p" unfolding p_def using b assms(1) by (rule py_fmul_nonneg)
  from p show "new_height c width height original_width = Inr \<lfloor>p\<rfloor>"
    using assms(4) by (simp add: new_height_def Let_def py_int_of_float_def p_def)
qed

text \<open>
  C7, amended. For a frame of height \<open>h \<ge> 0\<close> and width \<open>w > 0\<close> and a requested width
  \<open>width \<ge> 0\<close>, the row count is the float product \<open>width * (h / w) * aspect_correction\<close>
  truncated by \<open>int\<close>, not rounded: that is the rounded product or one less. The correction
  is the float 0.45 for quality \<open>high\<close> and the float 0.55 otherwise in \<open>video_to_ascii.py\<close>,
  and 0.5 in the two other files.
\<close>

theorem new_height_truncates:
  assumes "0 \<le> width" and "0 \<le> height" and "0 < original_width"
  shows "(\<exists>rows. resize_frame_rows q width height original_width = Inr rows
           \<and> (let p = py_fmul (py_fmul (of_int width) (py_truediv height original_width))
                            (char_aspect_ratio q)
               in of_int rows \<le> p \<and> p < of_int rows + 1
                  \<and> (py_round p = rows \<or> py_round p = rows + 1)))
       \<and> (\<exists>rows. simple_rows width height original_width = Inr rows
           \<and> (let p = py_fmul (py_fmul (of_int width) (py_truediv height original_width)) (1 / 2)
               in of_int rows \<le> p \<and> p < of_int rows + 1
                  \<and> (py_round p = rows \<or> py_round p = rows + 1)))
       \<and> \<bar>char_aspect_ratio q - (if q = High then 45 / 100 else 55 / 100)\<bar> \<le> 1 / 10 ^ 16"
proof -
  have c0: "0 \<le> char_aspect_ratio q" by (rule char_aspect_ratio_nonneg)
  have trunc: "of_int \<lfloor>p\<rfloor> \<le> p \<and> p < of_int \<lfloor>p\<rfloor> + 1
      \<and> (py_round p = \<lfloor>p\<rfloor> \<or> py_round p = \<lfloor>p\<rfloor> + 1)" for p :: rat
  proof -
    have "of_int \<lfloor>p\<rfloor> \<le> p" "p < of_int \<lfloor>p\<rfloor> + 1" by linarith+
    with round_half_even_floor [of p] show ?thesis by (simp add: py_round_def)
  qed
  have 1: "\<exists>rows. resize_frame_rows q width height original_width = Inr rows
           \<and> (let p = py_fmul (py_fmul (of_int width) (py_truediv height original_width))
                            (char_aspect_ratio q)
               in of_int rows \<le> p \<and> p < of_int rows + 1
                  \<and> (py_round p = rows \<or> py_round p = rows + 1))"
    unfolding Let_def resize_frame_rows_def
    using new_height_floor(1) [OF c0 assms] trunc by blast
  have h0: "(0::rat) \<le> 1 / 2" by simp
  have 2: "\<exists>rows. simple_rows width height original_width = Inr rows
           \<and> (let p = py_fmul (py_fmul (of_int width) (py_truediv height original_width)) (1 / 2)
               in of_int rows \<le> p \<and> p < of_int rows + 1
                  \<and> (py_round p = rows \<or> py_round p = rows + 1))"
    unfolding Let_def simple_rows_def ratio_values
    using new_height_floor(1) [OF h0 assms] trunc by blast
  from 1 2 char_aspect_ratio_near show ?thesis by blast
qed

theorem new_height_truncates_witness:
  "(0::int) \<le> 80 \<and> (0::int) \<le> 720 \<and> (0::int) < 1280
   \<and> (\<exists>rows. resize_frame_rows Medium 80 720 1280 = Inr rows
        \<and> (let p = py_fmul (py_fmul (of_int 80) (py_truediv 720 1280)) (char_aspect_ratio Medium)
            in of_int rows \<le> p \<and> p < of_int rows + 1
               \<and> (py_round p = rows \<or> py_round p = rows + 1)))"
proof -
  have h: "(0::int) \<le> 80" "(0::int) \<le> 720" "(0::int) < 1280" by simp_all
  from new_height_truncates [OF h, of Medium] h show ?thesis by blast
qed

theorem new_height_round_counterexample:
  "resize_frame_rows Medium 80 720 1280 = Inr 24
   \<and> py_round (py_fmul (py_fmul (of_int 80) (py_truediv 720 1280)) (char_aspect_ratio Medium)) = 25
   \<and> py_round (80 * (720 / 1280) * (55 / 100)) = 25"
  by code_simp

section \<open>Properties of the text frames and image sizes\<close>

lemma mapE_total:
  "(\<And>x. x \<in> set xs \<Longrightarrow> f x = Inr (h x)) \<Longrightarrow> mapE f xs = Inr (map h xs)"
  by (induction xs) auto

lemma split_on_lines:
  assumes "\<And>l. l \<in> set ls \<Longrightarrow> c \<notin> set l"
  shows "split_on c (concat (map (\<lambda>l. l @ [c]) ls)) = ls @ [[]]"
  using assms
proof (induction ls)
  case Nil
  then show ?case by simp
next
  case (Cons l ls)
  have "c \<notin> set l" using Cons.prems by simp
  from split_on_append [OF this]
  have "split_on c (l @ c # concat (map (\<lambda>l. l @ [c]) ls)) =
      l # split_on c (concat (map (\<lambda>l. l @ [c]) ls))" .
  with Cons show ?case by simp
qed

lemma glyph_member:
  assumes "chars \<noteq> []"
  shows "chars ! nat (char_index (int (length chars)) b) \<in> set chars"
proof -
  have n: "1 \<le> int (length chars)" using assms by (cases chars) auto
  note r = char_index_range [OF n, of b]
  then have "nat (char_index (int (length chars)) b) < length chars" by linarith
  then show ?thesis by (rule nth_mem)
qed

lemma simple_frame_to_ascii_eq:
  "simple_frame_to_ascii resized =
     Inr (concat (map (\<lambda>row. map (\<lambda>p. simple_ascii_chars ! nat (char_index 10 p)) row @ [10])
                      resized))"
proof -
  have ne: "simple_ascii_chars \<noteq> []" and len: "int (length simple_ascii_chars) = 10"
    by (simp_all add: simple_ascii_chars_def u_def)
  have g: "glyph simple_ascii_chars p = Inr (simple_ascii_chars ! nat (char_index 10 p))" for p
    using glyph_in_range [OF ne, of p] by (simp add: len)
  have row: "mapE (glyph simple_ascii_chars) row =
      Inr (map (\<lambda>p. simple_ascii_chars ! nat (char_index 10 p)) row)" for row
    by (rule mapE_total) (rule g)
  have "mapE (mapE (glyph simple_ascii_chars)) resized =
      Inr (map (map (\<lambda>p. simple_ascii_chars ! nat (char_index 10 p))) resized)"
    by (rule mapE_total) (rule row)
  then show ?thesis by (simp add: simple_frame_to_ascii_def comp_def)
qed

text \<open>
  The monochrome renderer of \<open>simple_ascii_video.py\<close> returns, for a resized frame of \<open>h\<close>
  rows of \<open>w\<close> pixels, a text of \<open>h\<close> lines of exactly \<open>w\<close> glyphs, each line ended by a
  newline.
\<close>

lemma simple_frame_to_ascii_lines:
  assumes "\<And>row. row \<in> set resized \<Longrightarrow> length row = w"
  shows "\<exists>text ls. simple_frame_to_ascii resized = Inr text
           \<and> split_on 10 text = ls @ [[]]
           \<and> length ls = length resized
           \<and> (\<forall>l \<in> set ls. length l = w \<and> set l \<subseteq> set simple_ascii_chars)"
proof -
  define g where "g = (\<lambda>p. simple_ascii_chars ! nat (char_index 10 p))"
  define ls where "ls = map (map g) resized"
  have ne: "simple_ascii_chars \<noteq> []" and len: "int (length simple_ascii_chars) = 10"
    by (simp_all add: simple_ascii_chars_def u_def)
  have mem: "g p \<in> set simple_ascii_chars" for p
    using glyph_member [OF ne, of p] by (simp add: g_def len)
  have nl: "10 \<notin> set simple_ascii_chars" by (simp add: simple_ascii_chars_def u_def)
  have sub: "set l \<subseteq> set simple_ascii_chars" if "l \<in> set ls" for l
    using that mem by (auto simp: ls_def)
  have frame: "simple_frame_to_ascii resized = Inr (concat (map (\<lambda>l. l @ [10]) ls))"
    by (simp add: simple_frame_to_ascii_eq ls_def g_def comp_def)
  have "split_on 10 (concat (map (\<lambda>l. l @ [10]) ls)) = ls @ [[]]"
    using sub nl by (intro split_on_lines) auto
  moreover have "length ls = length resized" by (simp add: ls_def)
  moreover have "\<forall>l \<in> set ls. length l = w \<and> set l \<subseteq> set simple_ascii_chars"
    using assms sub by (auto simp: ls_def)
  ultimately show ?thesis using frame by blast
qed

text \<open>The same for the renderer of \<open>video_to_ascii.py\<close> without colour.\<close>

lemma frame_to_ascii_lines:
  assumes "\<And>row. row \<in> set resized \<Longrightarrow> length row = w"
  shows "\<exists>text ls. frame_to_ascii False q resized = Inr text
           \<and> split_on 10 text = ls @ [[]]
           \<and> length ls = length resized
           \<and> (\<forall>l \<in> set ls. length l = w \<and> set l \<subseteq> set (ascii_chars q))"
proof -
  define chars where "chars = ascii_chars q"
  define g where "g = (\<lambda>px :: int \<times> (int \<times> int \<times> int).
      chars ! nat (char_index (int (length chars)) (fst px)))"
  define ls where "ls = map (map g) resized"
  have ne: "chars \<noteq> []"
    using length_ascii_chars [of q] by (auto simp: chars_def split: if_splits)
  have mem: "g px \<in> set chars" for px
    using glyph_member [OF ne] by (simp add: g_def)
  have nl: "10 \<notin> set chars"
    by (cases q) (simp_all add: chars_def ascii_chars_def ascii_sets_def u_def)
  have c: "cell False chars px = Inr [g px]" for px
    using glyph_in_range [OF ne] by (cases px) (auto simp: cell_def g_def)
  have row: "mapE (cell False chars) row = Inr (map (\<lambda>px. [g px]) row)" for row
    by (rule mapE_total) (rule c)
  have "mapE (mapE (cell False chars)) resized = Inr (map (map (\<lambda>px. [g px])) resized)"
    by (rule mapE_total) (rule row)
  moreover have "concat (map (\<lambda>px. [g px]) row) = map g row" for row
    by (induction row) auto
  ultimately have frame: "frame_to_ascii False q resized = Inr (concat (map (\<lambda>l. l @ [10]) ls))"
    by (simp add: frame_to_ascii_def ls_def comp_def flip: chars_def)
  have sub: "set l \<subseteq> set chars" if "l \<in> set ls" for l
    using that mem by (auto simp: ls_def)
  have "split_on 10 (concat (map (\<lambda>l. l @ [10]) ls)) = ls @ [[]]"
    using sub nl by (intro split_on_lines) auto
  moreover have "length ls = length resized" by (simp add: ls_def)
  moreover have "\<forall>l \<in> set ls. length l = w \<and> set l \<subseteq> set chars"
    using assms sub by (auto simp: ls_def)
  ultimately show ?thesis using frame unfolding chars_def by blast
qed

lemma simple_glyphs: "char_index 10 0 = 0" "char_index 10 255 = 9"
  using char_index_eq [of 10] by simp_all

lemma simple_chars_list: "simple_ascii_chars = [64, 37, 35, 42, 43, 61, 45, 58, 46, 32]"
  by (simp add: simple_ascii_chars_def u_def)

text \<open>
  C10, at a 2 by 2 frame whose top-left pixel is white and whose other pixels are black. The
  renderer returns two lines of two glyphs, a space and \<open>@\<close>, then \<open>@@\<close>. The compositor
  strips the text, which removes the leading space, and takes the image width from the first
  line: 8 pixels for one glyph, where the longest line has two glyphs and needs 16.
\<close>

theorem simple_image_width_first_line:
  "simple_frame_to_ascii [[255, 0], [0, 0]] = Inr [32, 64, 10, 64, 64, 10]
   \<and> split_on 10 [32, 64, 10, 64, 64, 10] = [[32, 64], [64, 64], []]
   \<and> split_on 10 (py_strip [32, 64, 10, 64, 64, 10]) = [[64], [64, 64]]
   \<and> ascii_to_simple_image_size True [32, 64, 10, 64, 64, 10] = Some (8, 32)"
  by (simp add: simple_frame_to_ascii_eq simple_glyphs simple_chars_list
      ascii_to_simple_image_size_def py_strip_def py_isspace_def)

section \<open>Properties of the frames handed to the video writer\<close>

text \<open>
  \<open>VideoToASCII.save_ascii_video\<close> resizes a disagreeing image, so every frame it writes has
  the size the writer was opened with.
\<close>

lemma save_ascii_video_written_uniform:
  assumes "save_ascii_video_written pil q w ascii_frames = Some (dims, written)"
    and "d \<in> set written"
  shows "d = dims"
  using assms
  by (auto simp: save_ascii_video_written_def split: if_splits list.splits option.splits prod.splits)

text \<open>
  C9, at two text frames that \<open>SimpleVideoToASCII.frame_to_ascii\<close> returns for 2 by 2
  frames: an all-black frame, and a frame whose top row is white. The compositor strips the
  blank first line of the second text, so its image is 16 by 16 where the writer was opened
  at 16 by 32, and \<open>create_video\<close> writes it as it is.
\<close>

theorem simple_create_video_mismatch:
  "simple_frame_to_ascii [[0, 0], [0, 0]] = Inr [64, 64, 10, 64, 64, 10]
   \<and> simple_frame_to_ascii [[255, 255], [0, 0]] = Inr [32, 32, 10, 64, 64, 10]
   \<and> simple_create_video_written True [[64, 64, 10, 64, 64, 10], [32, 32, 10, 64, 64, 10]]
       = Some ((16, 32), [(16, 32), (16, 16)])"
  by (simp add: simple_frame_to_ascii_eq simple_glyphs simple_chars_list
      simple_create_video_written_def ascii_to_simple_image_size_def
      py_strip_def py_isspace_def)

text \<open>The same two text frames in \<open>VideoToASCII.save_ascii_video\<close>, quality medium.\<close>

lemma save_ascii_video_written_example:
  "save_ascii_video_written True Medium 2 [[64, 64, 10, 64, 64, 10], [32, 32, 10, 64, 64, 10]]
     = Some ((16, 28), [(16, 28), (16, 28)])"
  by (simp add: save_ascii_video_written_def ascii_to_image_size_def char_width_def
      char_height_def py_strip_def py_isspace_def is_param_def)

section \<open>Properties of the end of a save-video run\<close>

text \<open>
  Once the audio is extracted, the temporary video is removed before the outcome of the
  remux is looked at, so a failed remux ends with \<open>False\<close>, whatever the files on disk.
\<close>

lemma remux_failure_returns_False:
  assumes "available mp" and "extract_ends mp = AudioWritten"
    and "combine_ends mp = CombineRaises left"
    and "original_video_path = Some p" and "p \<noteq> []"
  shows "fst (save_ascii_video_finish mp True original_video_path output_path s) = False"
    and "fst (reliable_create_video_finish mp True output_path s) = False"
  using assms
  by (simp_all add: save_ascii_video_finish_def reliable_create_video_finish_def
      extract_audio_def combine_video_audio_def reliable_extract_audio_def
      reliable_combine_video_audio_def rename_temp_def remove_if_exists_def say_def Let_def)

text \<open>
  When no audio comes out of the extraction, the temporary video is renamed to the output
  path and the run ends with \<open>True\<close>.
\<close>

lemma extract_failure_delivers:
  assumes "''temp_ascii_video.avi'' \<in> files s" and "extract_ends mp \<noteq> AudioWritten"
  shows "fst (save_ascii_video_finish mp preserve_audio original_video_path output_path s)"
    and "output_path \<in> files (snd (save_ascii_video_finish mp preserve_audio
                                        original_video_path output_path s))"
  using assms
  by (cases "extract_ends mp";
      simp add: save_ascii_video_finish_def extract_audio_def rename_temp_def
        remove_if_exists_def say_def Let_def)+

text \<open>
  C8, at a run with MoviePy installed, audio preservation requested, an extraction that
  writes \<open>temp_audio.wav\<close> and a remux that raises: both \<open>save_ascii_video\<close> and
  \<open>create_video\<close> delete the temporary video and the audio, find no temporary video to
  rename, and return \<open>False\<close> with no file at the output path.
\<close>

theorem remux_failure_no_video:
  "save_ascii_video_finish
     \<lparr>available = True, extract_ends = AudioWritten, combine_ends = CombineRaises False\<rparr>
     True (Some ''input.mp4'') ''output.mp4''
     \<lparr>files = {''input.mp4'', ''temp_ascii_video.avi''}, printed = []\<rparr>
   = (False,
      \<lparr>files = {''input.mp4''},
       printed = [''Extracting audio from original video...'',
                  ''Combining video with audio...'',
                  ''Error combining video and audio'',
                  ''Failed to combine audio, saving video without audio...'']\<rparr>)
   \<and> reliable_create_video_finish
     \<lparr>available = True, extract_ends = AudioWritten, combine_ends = CombineRaises False\<rparr>
     True ''output.mp4''
     \<lparr>files = {''input.mp4'', ''temp_ascii.avi''}, printed = []\<rparr>
   = (False,
      \<lparr>files = {''input.mp4''},
       printed = [''Extracting audio...'',
                  ''Combining video with audio...'',
                  ''Audio combination failed'']\<rparr>)"
  by (auto simp: save_ascii_video_finish_def reliable_create_video_finish_def
      extract_audio_def combine_video_audio_def reliable_extract_audio_def
      reliable_combine_video_audio_def rename_temp_def remove_if_exists_def say_def Let_def)

end
